theory Spec2Isabelle
  imports Complex_Main
begin

section \<open>Data model (eVTOLSimulation.h)\<close>

text \<open>
  The simulation's \<open>double\<close> values are modelled as real numbers, its \<open>int\<close> counters
  as integers (they count events of a three-hour run, far from the 32-bit range).
  The three constants are the \<open>constexpr\<close> values of the header.
\<close>

definition SIM_DURATION :: real where
  "SIM_DURATION = 3"

definition NUM_VEHICLES :: nat where
  "NUM_VEHICLES = 20"

definition NUM_CHARGERS :: nat where
  "NUM_CHARGERS = 3"

datatype Company = ALPHA | BRAVO | CHARLIE | DELTA | ECHO

record VehicleType =
  company :: Company
  cruiseSpeed :: real
  batteryCapacity :: real
  timeToCharge :: real
  energyPerMile :: real
  passengerCount :: int
  faultProbPerHour :: real

record Stats =
  totalFlightTime :: real
  totalDistance :: real
  totalChargeTime :: real
  passengerMiles :: real
  totalFlights :: int
  totalCharges :: int
  totalFaults :: int

text \<open>The default member initialisers of \<open>struct Stats\<close>.\<close>

definition Stats_default :: Stats where
  "Stats_default =
     \<lparr>totalFlightTime = 0, totalDistance = 0, totalChargeTime = 0, passengerMiles = 0,
      totalFlights = 0, totalCharges = 0, totalFaults = 0\<rparr>"

text \<open>
  A \<open>Vehicle\<close> lives behind a \<open>std::shared_ptr\<close>; two pointers are the same vehicle
  iff they are the same object. The field \<open>ident\<close> stands for the address of the object
  (\<open>createVehicles\<close> numbers the objects in the order it allocates them).
\<close>

record Vehicle =
  ident :: nat
  type :: VehicleType
  nextAvailableTime :: real

text \<open>
  An event's action is one of the two closures the program ever creates: the one of
  \<open>scheduleFlight\<close>, capturing \<open>(v, startTime, flightDuration)\<close>, and the one of
  \<open>tryCharging\<close>, capturing \<open>(v, i)\<close>.
\<close>

datatype Action = FlightEnd Vehicle real real | ChargeEnd Vehicle nat

record Event =
  time :: real
  action :: Action

text \<open>
  Observations of the charging allocator, in the order they happen: a vehicle is pushed
  onto the waiting line, a dequeued vehicle is placed on a charger, a dequeued vehicle is
  discarded because its charge would end after the horizon.
\<close>

datatype Obs = Joined Vehicle | Assigned Vehicle nat | Dropped Vehicle

text \<open>
  The members of \<open>class Simulation\<close>. The priority queue is the list of its pending
  events in insertion order; which of several events with the same earliest time
  \<open>top()\<close> delivers is left to the caller of the model (see \<open>run_iteration\<close>).
  \<open>allocLog\<close> is not a member of the class: it is a history variable that records the
  allocator's observations and is never read by any operation.
\<close>

record Simulation =
  eventQueue :: "Event list"
  chargingQueue :: "Vehicle list"
  activeChargers :: "Vehicle option list"
  vehicleTypes :: "VehicleType list"
  vehicles :: "Vehicle list"
  stats :: "Company \<Rightarrow> Stats option"
  allocLog :: "Obs list"

text \<open>
  The two ways the program can leave defined behaviour: \<open>top()\<close> on an empty priority
  queue, and a vector subscript out of range.
\<close>

datatype error = EmptyQueueTop | SubscriptOutOfRange

section \<open>Vehicle (eVTOLSimulation.cpp, lines 9-15)\<close>

definition getFlightDuration :: "Vehicle \<Rightarrow> real" where
  "getFlightDuration v =
     batteryCapacity (type v) / (cruiseSpeed (type v) * energyPerMile (type v))"

definition getDistancePerFlight :: "Vehicle \<Rightarrow> real" where
  "getDistancePerFlight v = cruiseSpeed (type v) * getFlightDuration v"

section \<open>Simulation (eVTOLSimulation.cpp, lines 21-105)\<close>

text \<open>A \<open>for\<close> loop over indices whose body may fail.\<close>

fun for_loop :: "nat list \<Rightarrow> (nat \<Rightarrow> 's \<Rightarrow> error + 's) \<Rightarrow> 's \<Rightarrow> error + 's" where
  "for_loop [] body s = Inr s"
| "for_loop (i # is) body s =
     (case body i s of Inl e \<Rightarrow> Inl e | Inr s' \<Rightarrow> for_loop is body s')"

text \<open>\<open>Stats &s = stats[c]\<close>: a missing key is created with the default value.\<close>

definition stats_at :: "(Company \<Rightarrow> Stats option) \<Rightarrow> Company \<Rightarrow> Stats" where
  "stats_at m c = (case m c of None \<Rightarrow> Stats_default | Some st \<Rightarrow> st)"

definition scheduleFlight :: "Vehicle \<Rightarrow> real \<Rightarrow> Simulation \<Rightarrow> Simulation" where
  "scheduleFlight v startTime s =
     (let flightDuration = getFlightDuration v in
      if startTime + flightDuration > SIM_DURATION then s
      else s\<lparr>eventQueue := eventQueue s @
                [\<lparr>time = startTime + flightDuration,
                  action = FlightEnd v startTime flightDuration\<rparr>]\<rparr>)"

text \<open>The body of the loop of \<open>tryCharging\<close>, for charger \<open>i\<close>.\<close>

definition tryCharging_body :: "real \<Rightarrow> nat \<Rightarrow> Simulation \<Rightarrow> error + Simulation" where
  "tryCharging_body currentTime i s =
     (if length (activeChargers s) \<le> i then Inl SubscriptOutOfRange
      else if activeChargers s ! i = None \<and> chargingQueue s \<noteq> [] then
        (let v = hd (chargingQueue s);
             s1 = s\<lparr>chargingQueue := tl (chargingQueue s)\<rparr>;
             chargeEnd = currentTime + timeToCharge (type v)
         in if chargeEnd > SIM_DURATION
            then Inr (s1\<lparr>allocLog := allocLog s1 @ [Dropped v]\<rparr>)
            else Inr (s1\<lparr>activeChargers := (activeChargers s1)[i := Some v],
                         eventQueue := eventQueue s1 @
                           [\<lparr>time = chargeEnd, action = ChargeEnd v i\<rparr>],
                         allocLog := allocLog s1 @ [Assigned v i]\<rparr>))
      else Inr s)"

definition tryCharging :: "real \<Rightarrow> Simulation \<Rightarrow> error + Simulation" where
  "tryCharging currentTime s = for_loop [0..<NUM_CHARGERS] (tryCharging_body currentTime) s"

text \<open>
  \<open>processFlightEnd\<close>; \<open>u\<close> is the value that \<open>dist01(rng)\<close> returns in this call.
\<close>

definition processFlightEnd ::
  "Vehicle \<Rightarrow> real \<Rightarrow> real \<Rightarrow> real \<Rightarrow> Simulation \<Rightarrow> error + Simulation" where
  "processFlightEnd v startTime duration u s =
     (let endTime = startTime + duration in
      if endTime > SIM_DURATION then Inr s
      else
        (let distance = getDistancePerFlight v;
             c = company (type v);
             st = stats_at (stats s) c;
             st1 = st\<lparr>totalFlightTime := totalFlightTime st + duration,
                      totalDistance := totalDistance st + distance,
                      totalFlights := totalFlights st + 1,
                      passengerMiles := passengerMiles st
                         + of_int (passengerCount (type v)) * distance\<rparr>;
             st2 = (if u < faultProbPerHour (type v) * duration
                    then st1\<lparr>totalFaults := totalFaults st1 + 1\<rparr> else st1);
             s1 = s\<lparr>stats := (stats s)(c \<mapsto> st2),
                     chargingQueue := chargingQueue s @ [v],
                     allocLog := allocLog s @ [Joined v]\<rparr>
         in tryCharging endTime s1))"

text \<open>
  The time of \<open>eventQueue.top()\<close>: the least time of a pending event (the queue orders
  its events by \<open>std::greater\<close>, so the top is an event of least time).
\<close>

fun top_time :: "Event list \<Rightarrow> real" where
  "top_time [] = 0"
| "top_time [e] = time e"
| "top_time (e # es) = min (time e) (top_time es)"

text \<open>
  \<open>finishCharging\<close> runs after \<open>run\<close> has popped the event that carries it, so the
  queue it reads with \<open>top()\<close> no longer holds that event.
\<close>

definition finishCharging :: "Vehicle \<Rightarrow> nat \<Rightarrow> Simulation \<Rightarrow> error + Simulation" where
  "finishCharging v chargerIndex s =
     (if eventQueue s = [] then Inl EmptyQueueTop
      else
        (let now = top_time (eventQueue s);
             c = company (type v);
             st = stats_at (stats s) c;
             st1 = st\<lparr>totalChargeTime := totalChargeTime st + timeToCharge (type v),
                      totalCharges := totalCharges st + 1\<rparr>
         in if length (activeChargers s) \<le> chargerIndex then Inl SubscriptOutOfRange
            else tryCharging now
                   (scheduleFlight v now
                      (s\<lparr>stats := (stats s)(c \<mapsto> st1),
                         activeChargers := (activeChargers s)[chargerIndex := None]\<rparr>))))"

text \<open>
  One iteration of the loop of \<open>run\<close>. \<open>is_top q k\<close> says that the \<open>k\<close>-th pending
  event is one that \<open>top()\<close> may deliver: no pending event is earlier. The iteration
  pops it and calls its action.
\<close>

definition is_top :: "Event list \<Rightarrow> nat \<Rightarrow> bool" where
  "is_top q k \<longleftrightarrow> k < length q \<and> list_all (\<lambda>e. time (q ! k) \<le> time e) q"

definition pop_at :: "nat \<Rightarrow> Event list \<Rightarrow> Event list" where
  "pop_at k q = take k q @ drop (Suc k) q"

definition run_iteration :: "nat \<Rightarrow> real \<Rightarrow> Simulation \<Rightarrow> error + Simulation" where
  "run_iteration k u s =
     (let e = eventQueue s ! k;
          s1 = s\<lparr>eventQueue := pop_at k (eventQueue s)\<rparr>
      in case action e of
           FlightEnd v startTime duration \<Rightarrow> processFlightEnd v startTime duration u s1
         | ChargeEnd v i \<Rightarrow> finishCharging v i s1)"

text \<open>
  The loop condition of \<open>run\<close> together with the choices the program does not make
  itself: which earliest event the queue delivers, and the sample \<open>u\<close> in \<open>[0, 1)\<close>
  that the random engine returns if the action draws one.
\<close>

definition deliverable :: "Simulation \<Rightarrow> nat \<Rightarrow> real \<Rightarrow> bool" where
  "deliverable s k u \<longleftrightarrow>
     is_top (eventQueue s) k \<and> time (eventQueue s ! k) \<le> SIM_DURATION \<and> 0 \<le> u \<and> u < 1"

inductive run_step :: "Simulation \<Rightarrow> Simulation \<Rightarrow> bool" where
  iteration: "deliverable s k u \<Longrightarrow> run_iteration k u s = Inr s' \<Longrightarrow> run_step s s'"

text \<open>
  The loop of \<open>run\<close>, iterated along a list of such choices; it stops at the first
  choice that the queue could not deliver, or when the list ends.
\<close>

fun run :: "(nat \<times> real) list \<Rightarrow> Simulation \<Rightarrow> error + Simulation" where
  "run [] s = Inr s"
| "run ((k, u) # cs) s =
     (if deliverable s k u
      then (case run_iteration k u s of Inl e \<Rightarrow> Inl e | Inr s' \<Rightarrow> run cs s')
      else Inr s)"

text \<open>The constructor: \<open>loadVehicleTypes\<close>, \<open>createVehicles\<close>, then the resize.\<close>

definition Simulation_members :: Simulation where
  "Simulation_members =
     \<lparr>eventQueue = [], chargingQueue = [], activeChargers = [], vehicleTypes = [],
      vehicles = [], stats = Map.empty, allocLog = []\<rparr>"

definition loadVehicleTypes :: "Simulation \<Rightarrow> Simulation" where
  "loadVehicleTypes s = s\<lparr>vehicleTypes :=
     [\<lparr>company = ALPHA, cruiseSpeed = 120, batteryCapacity = 320, timeToCharge = 6/10,
       energyPerMile = 16/10, passengerCount = 4, faultProbPerHour = 25/100\<rparr>,
      \<lparr>company = BRAVO, cruiseSpeed = 100, batteryCapacity = 100, timeToCharge = 2/10,
       energyPerMile = 15/10, passengerCount = 5, faultProbPerHour = 10/100\<rparr>,
      \<lparr>company = CHARLIE, cruiseSpeed = 160, batteryCapacity = 220, timeToCharge = 8/10,
       energyPerMile = 22/10, passengerCount = 3, faultProbPerHour = 5/100\<rparr>,
      \<lparr>company = DELTA, cruiseSpeed = 90, batteryCapacity = 120, timeToCharge = 62/100,
       energyPerMile = 8/10, passengerCount = 2, faultProbPerHour = 22/100\<rparr>,
      \<lparr>company = ECHO, cruiseSpeed = 30, batteryCapacity = 150, timeToCharge = 3/10,
       energyPerMile = 58/10, passengerCount = 2, faultProbPerHour = 61/100\<rparr>]\<rparr>"

text \<open>
  The body of the loop of \<open>createVehicles\<close>; \<open>draw i\<close> is the value \<open>dist(rng)\<close>
  returns in iteration \<open>i\<close>. The distribution only returns indices of the catalog.
\<close>

definition createVehicles_body :: "(nat \<Rightarrow> nat) \<Rightarrow> nat \<Rightarrow> Simulation \<Rightarrow> error + Simulation" where
  "createVehicles_body draw i s =
     (if length (vehicleTypes s) \<le> draw i then Inl SubscriptOutOfRange
      else
        (let vt = vehicleTypes s ! draw i;
             v = \<lparr>ident = i, type = vt, nextAvailableTime = 0\<rparr>
         in Inr (scheduleFlight v 0 (s\<lparr>vehicles := vehicles s @ [v]\<rparr>))))"

definition createVehicles :: "(nat \<Rightarrow> nat) \<Rightarrow> Simulation \<Rightarrow> error + Simulation" where
  "createVehicles draw s = for_loop [0..<NUM_VEHICLES] (createVehicles_body draw) s"

text \<open>\<open>activeChargers.resize(n)\<close>: new elements are null pointers.\<close>

definition resize :: "nat \<Rightarrow> Vehicle option list \<Rightarrow> Vehicle option list" where
  "resize n xs = take n xs @ replicate (n - length xs) None"

text \<open>
  The constructor after \<open>loadVehicleTypes\<close>, for any catalog in \<open>vehicleTypes\<close>, and the
  constructor itself.
\<close>

definition Simulation_init :: "(nat \<Rightarrow> nat) \<Rightarrow> Simulation \<Rightarrow> error + Simulation" where
  "Simulation_init draw s =
     (case createVehicles draw s of
        Inl e \<Rightarrow> Inl e
      | Inr s' \<Rightarrow> Inr (s'\<lparr>activeChargers := resize NUM_CHARGERS (activeChargers s')\<rparr>))"

definition Simulation_ctor :: "(nat \<Rightarrow> nat) \<Rightarrow> error + Simulation" where
  "Simulation_ctor draw = Simulation_init draw (loadVehicleTypes Simulation_members)"

text \<open>
  The states of a run of the program: those the constructor builds, and those the loop
  of \<open>run\<close> reaches from them.
\<close>

inductive reachable :: "Simulation \<Rightarrow> bool" where
  constructed: "Simulation_ctor draw = Inr s \<Longrightarrow> reachable s"
| iterated: "reachable s \<Longrightarrow> run_step s s' \<Longrightarrow> reachable s'"

text \<open>
  The same runs for a catalog other than the one \<open>loadVehicleTypes\<close> installs: the
  constructor started on \<open>fresh catalog\<close>, and the loop of \<open>run\<close> from there. With the
  catalog of \<open>loadVehicleTypes\<close> these are the runs of the program.
\<close>

definition fresh :: "VehicleType list \<Rightarrow> Simulation" where
  "fresh catalog = Simulation_members\<lparr>vehicleTypes := catalog\<rparr>"

inductive reachable_with :: "VehicleType list \<Rightarrow> Simulation \<Rightarrow> bool" for catalog where
  constructed_with: "Simulation_init draw (fresh catalog) = Inr s \<Longrightarrow> reachable_with catalog s"
| iterated_with: "reachable_with catalog s \<Longrightarrow> run_step s s' \<Longrightarrow> reachable_with catalog s'"

section \<open>Invariants of a run\<close>

text \<open>
  Every event carries one vehicle. The occupants of a state are the vehicles of its
  pending events (the vehicles flying or charging) and the vehicles in the waiting line.
\<close>

definition ev_vehicle :: "Event \<Rightarrow> Vehicle" where
  "ev_vehicle e = (case action e of FlightEnd v _ _ \<Rightarrow> v | ChargeEnd v _ \<Rightarrow> v)"

definition occupants :: "Simulation \<Rightarrow> Vehicle list" where
  "occupants s = map ev_vehicle (eventQueue s) @ chargingQueue s"

text \<open>
  The charger pool: there are \<open>NUM_CHARGERS\<close> slots; no vehicle occurs twice among the
  occupants; a pending charge completion for \<open>(v, i)\<close> means that slot \<open>i\<close> holds \<open>v\<close>,
  and a slot that holds \<open>v\<close> has a pending charge completion for it.
\<close>

definition charging_ok :: "Simulation \<Rightarrow> bool" where
  "charging_ok s \<longleftrightarrow>
     length (activeChargers s) = NUM_CHARGERS
     \<and> distinct (map ident (occupants s))
     \<and> (\<forall>e\<in>set (eventQueue s). \<forall>v i. action e = ChargeEnd v i
           \<longrightarrow> i < NUM_CHARGERS \<and> activeChargers s ! i = Some v)
     \<and> (\<forall>i<NUM_CHARGERS. \<forall>v. activeChargers s ! i = Some v
           \<longrightarrow> (\<exists>e\<in>set (eventQueue s). action e = ChargeEnd v i))"

text \<open>The pending charge completions: the events of the vehicles that are charging.\<close>

definition is_charge :: "Event \<Rightarrow> bool" where
  "is_charge e = (case action e of FlightEnd v startTime duration \<Rightarrow> False | ChargeEnd v i \<Rightarrow> True)"

text \<open>
  The horizon: no pending event is later than \<open>SIM_DURATION\<close>, and a pending flight
  completion is timed at the start of its flight plus its duration.
\<close>

definition horizon_ok :: "Simulation \<Rightarrow> bool" where
  "horizon_ok s \<longleftrightarrow>
     (\<forall>e\<in>set (eventQueue s). time e \<le> SIM_DURATION
        \<and> (\<forall>v startTime duration. action e = FlightEnd v startTime duration
              \<longrightarrow> time e = startTime + duration))"

text \<open>
  The waiting line: the vehicles that joined it, in order, are the vehicles that were
  dequeued from it (assigned or dropped), in order, followed by the line itself.
\<close>

definition joined :: "Obs list \<Rightarrow> Vehicle list" where
  "joined obs = concat (map (\<lambda>ob. case ob of Joined v \<Rightarrow> [v] | Assigned v i \<Rightarrow> [] | Dropped v \<Rightarrow> []) obs)"

definition dequeued :: "Obs list \<Rightarrow> Vehicle list" where
  "dequeued obs = concat (map (\<lambda>ob. case ob of Joined v \<Rightarrow> [] | Assigned v i \<Rightarrow> [v] | Dropped v \<Rightarrow> [v]) obs)"

definition fifo_ok :: "Simulation \<Rightarrow> bool" where
  "fifo_ok s \<longleftrightarrow> joined (allocLog s) = dequeued (allocLog s) @ chargingQueue s"

text \<open>The occupants are vehicles of the fleet; the counters of \<open>Stats\<close> are not negative.\<close>

definition fleet_ok :: "Simulation \<Rightarrow> bool" where
  "fleet_ok s \<longleftrightarrow> set (occupants s) \<subseteq> set (vehicles s)"

definition counts_ok :: "Simulation \<Rightarrow> bool" where
  "counts_ok s \<longleftrightarrow> (\<forall>c st. stats s c = Some st \<longrightarrow> 0 \<le> totalFlights st \<and> 0 \<le> totalCharges st)"

definition well_formed :: "VehicleType list \<Rightarrow> Simulation \<Rightarrow> bool" where
  "well_formed catalog s \<longleftrightarrow>
     charging_ok s \<and> horizon_ok s \<and> fifo_ok s \<and> fleet_ok s \<and> counts_ok s
     \<and> (\<forall>v\<in>set (vehicles s). type v \<in> set catalog)"

text \<open>What a matching pass leaves as it is, and what it can only shrink.\<close>

definition pass_frame :: "Simulation \<Rightarrow> Simulation \<Rightarrow> bool" where
  "pass_frame s s' \<longleftrightarrow> stats s' = stats s \<and> vehicles s' = vehicles s
     \<and> vehicleTypes s' = vehicleTypes s \<and> set (occupants s') \<subseteq> set (occupants s)"

text \<open>The state of the constructor after \<open>n\<close> iterations of the loop of \<open>createVehicles\<close>.\<close>

definition built :: "VehicleType list \<Rightarrow> nat \<Rightarrow> Simulation \<Rightarrow> bool" where
  "built catalog n s \<longleftrightarrow>
     chargingQueue s = [] \<and> activeChargers s = [] \<and> stats s = Map.empty \<and> allocLog s = []
     \<and> vehicleTypes s = catalog \<and> map ident (vehicles s) = [0..<n]
     \<and> (\<forall>v\<in>set (vehicles s). type v \<in> set catalog)
     \<and> (\<forall>e\<in>set (eventQueue s). ev_vehicle e \<in> set (vehicles s)
           \<and> action e = FlightEnd (ev_vehicle e) 0 (getFlightDuration (ev_vehicle e))
           \<and> time e = 0 + getFlightDuration (ev_vehicle e) \<and> time e \<le> SIM_DURATION)
     \<and> distinct (map ident (map ev_vehicle (eventQueue s)))"


section \<open>printStats (eVTOLSimulation.cpp, lines 107-116)\<close>

text \<open>
  The quotient of a \<open>double\<close> by an \<open>int\<close>, made partial: \<open>None\<close> stands for a division
  by zero (in the program: an infinity or NaN).
\<close>

definition quotient :: "real \<Rightarrow> int \<Rightarrow> real option" where
  "quotient x n = (if n = 0 then None else Some (x / of_int n))"

definition avgFlightTime :: "Stats \<Rightarrow> real option" where
  "avgFlightTime stat =
     (if totalFlights stat \<noteq> 0 then quotient (totalFlightTime stat) (totalFlights stat)
      else Some 0)"

definition avgDistancePerFlight :: "Stats \<Rightarrow> real option" where
  "avgDistancePerFlight stat =
     (if totalFlights stat \<noteq> 0 then quotient (totalDistance stat) (totalFlights stat)
      else Some 0)"

definition avgChargeTime :: "Stats \<Rightarrow> real option" where
  "avgChargeTime stat =
     (if totalCharges stat \<noteq> 0 then quotient (totalChargeTime stat) (totalCharges stat)
      else Some 0)"

section \<open>Fleets of the examples\<close>

text \<open>
  Three results of the twenty draws of \<open>createVehicles\<close> (indices into the catalog:
  0 is Alpha, 2 is Charlie), and the vehicle an observation is about.
\<close>

definition fleet_alpha :: "nat \<Rightarrow> nat" where
  "fleet_alpha i = 0"

definition fleet_one_charlie :: "nat \<Rightarrow> nat" where
  "fleet_one_charlie i = (if i = 0 then 2 else 0)"

definition fleet_seven_charlie :: "nat \<Rightarrow> nat" where
  "fleet_seven_charlie i = (if i < 7 then 2 else 0)"

definition obs_vehicle :: "Obs \<Rightarrow> Vehicle" where
  "obs_vehicle ob = (case ob of Joined v \<Rightarrow> v | Assigned v i \<Rightarrow> v | Dropped v \<Rightarrow> v)"

text \<open>
  Catalogs on which the quotient of \<open>getFlightDuration\<close> is the program's: with a cruise
  speed or an energy rate of zero the program divides by zero and gets an infinity or a
  NaN, which the real numbers of this model do not have.
\<close>

definition catalog_valid :: "VehicleType list \<Rightarrow> bool" where
  "catalog_valid catalog \<longleftrightarrow> (\<forall>t\<in>set catalog. 0 < cruiseSpeed t \<and> 0 < energyPerMile t)"

text \<open>
  Two catalog entries that \<open>loadVehicleTypes\<close> does not install: the vehicle type of the
  specification's end-to-end scenario, which never has a fault, and a type whose cruise
  speed is negative.
\<close>

definition spec_type :: VehicleType where
  "spec_type = \<lparr>company = BRAVO, cruiseSpeed = 100, batteryCapacity = 100, timeToCharge = 2/10,
       energyPerMile = 15/10, passengerCount = 5, faultProbPerHour = 0\<rparr>"

definition backwards_type :: VehicleType where
  "backwards_type = \<lparr>company = ALPHA, cruiseSpeed = - 120, batteryCapacity = 320,
       timeToCharge = 6/10, energyPerMile = 16/10, passengerCount = 4, faultProbPerHour = 25/100\<rparr>"

section \<open>Loops, events and the invariants\<close>

lemma for_loop_invariant:
  assumes "for_loop js body s = Inr s'" and "P s"
    and "\<And>i t t'. i \<in> set js \<Longrightarrow> P t \<Longrightarrow> body i t = Inr t' \<Longrightarrow> P t'"
  shows "P s'"
  using assms
proof (induction js arbitrary: s)
  case Nil
  then show ?case by simp
next
  case (Cons j js)
  from Cons.prems(1) obtain t where t: "body j s = Inr t" and rest: "for_loop js body t = Inr s'"
    by (auto split: sum.splits)
  have Pt: "P t" using Cons.prems(3) [of j s t] Cons.prems(2) t by simp
  show ?case
  proof (rule Cons.IH [OF rest Pt])
    fix i t t' assume "i \<in> set js" "P t" "body i t = Inr t'"
    then show "P t'" using Cons.prems(3) [of i t t'] by simp
  qed
qed

lemma for_loop_total:
  assumes "P s"
    and "\<And>i t. i \<in> set js \<Longrightarrow> P t \<Longrightarrow> \<exists>t'. body i t = Inr t' \<and> P t'"
  shows "\<exists>s'. for_loop js body s = Inr s' \<and> P s'"
  using assms
proof (induction js arbitrary: s)
  case Nil
  then show ?case by simp
next
  case (Cons j js)
  from Cons.prems obtain t where t: "body j s = Inr t" "P t"
    by (meson list.set_intros(1))
  from Cons.IH [OF t(2)] Cons.prems(2) obtain s' where "for_loop js body t = Inr s' \<and> P s'"
    by (meson list.set_intros(2))
  with t show ?case by simp
qed

lemma for_loop_upt_invariant:
  assumes "for_loop [a..<b] body s = Inr s'" and "P a s" and "a \<le> b"
    and "\<And>i t t'. a \<le> i \<Longrightarrow> i < b \<Longrightarrow> P i t \<Longrightarrow> body i t = Inr t' \<Longrightarrow> P (Suc i) t'"
  shows "P b s'"
  using assms
proof (induction "b - a" arbitrary: a s)
  case 0
  then show ?case by simp
next
  case (Suc n)
  then have ab: "a < b" by simp
  then have upt: "[a..<b] = a # [Suc a..<b]" by (simp add: upt_rec)
  from Suc.prems(1) upt obtain t where t: "body a s = Inr t"
    and rest: "for_loop [Suc a..<b] body t = Inr s'"
    by (auto split: sum.splits)
  have Pt: "P (Suc a) t" using Suc.prems(4) [of a s t] ab Suc.prems(2) t by simp
  have n: "n = b - Suc a" using Suc.hyps(2) by simp
  show ?case
  proof (rule Suc.hyps(1) [OF n rest Pt])
    show "Suc a \<le> b" using ab by simp
    show "\<And>i t t'. Suc a \<le> i \<Longrightarrow> i < b \<Longrightarrow> P i t \<Longrightarrow> body i t = Inr t' \<Longrightarrow> P (Suc i) t'"
      using Suc.prems(4) by simp
  qed
qed

lemma horizon_scheduleFlight: "horizon_ok s \<Longrightarrow> horizon_ok (scheduleFlight v t s)"
  by (auto simp: horizon_ok_def scheduleFlight_def Let_def)

lemma horizon_tryCharging_body:
  "horizon_ok s \<Longrightarrow> tryCharging_body now i s = Inr s' \<Longrightarrow> horizon_ok s'"
  by (auto simp: horizon_ok_def tryCharging_body_def Let_def split: if_splits)

lemma horizon_tryCharging:
  "horizon_ok s \<Longrightarrow> tryCharging now s = Inr s' \<Longrightarrow> horizon_ok s'"
  unfolding tryCharging_def
  by (erule for_loop_invariant [where P = horizon_ok, rotated]) (auto intro: horizon_tryCharging_body)

lemma set_pop_at: "set (pop_at k q) \<subseteq> set q"
  by (auto simp: pop_at_def dest: in_set_takeD in_set_dropD)

lemma horizon_pop: "horizon_ok s \<Longrightarrow> horizon_ok (s\<lparr>eventQueue := pop_at k (eventQueue s)\<rparr>)"
  using set_pop_at [of k "eventQueue s"] by (auto simp: horizon_ok_def)

lemma processFlightEnd_elim:
  assumes "processFlightEnd v st d u s = Inr s'"
  obtains (late) "st + d > SIM_DURATION" "s' = s"
  | (landed) s1 where "st + d \<le> SIM_DURATION" "tryCharging (st + d) s1 = Inr s'"
      "eventQueue s1 = eventQueue s" "chargingQueue s1 = chargingQueue s @ [v]"
      "activeChargers s1 = activeChargers s" "vehicles s1 = vehicles s"
      "vehicleTypes s1 = vehicleTypes s" "allocLog s1 = allocLog s @ [Joined v]"
      "\<forall>c. c \<noteq> company (type v) \<longrightarrow> stats s1 c = stats s c"
      "\<exists>st1. stats s1 (company (type v)) = Some st1
         \<and> totalFaults st1 = totalFaults (stats_at (stats s) (company (type v)))
              + (if u < faultProbPerHour (type v) * d then 1 else 0)
         \<and> totalFlights st1 = totalFlights (stats_at (stats s) (company (type v))) + 1
         \<and> totalCharges st1 = totalCharges (stats_at (stats s) (company (type v)))"
proof (cases "st + d > SIM_DURATION")
  case True
  with assms have "s' = s" by (simp add: processFlightEnd_def)
  with True show ?thesis by (rule late)
next
  case False
  show ?thesis
    by (rule landed [OF _ assms [unfolded processFlightEnd_def Let_def if_not_P [OF False]]])
      (use False in simp_all)
qed

lemma finishCharging_elim:
  assumes "finishCharging v i s = Inr s'"
  obtains s1 where "eventQueue s \<noteq> []" "i < length (activeChargers s)"
      "tryCharging (top_time (eventQueue s)) (scheduleFlight v (top_time (eventQueue s)) s1) = Inr s'"
      "eventQueue s1 = eventQueue s" "chargingQueue s1 = chargingQueue s"
      "activeChargers s1 = (activeChargers s)[i := None]" "vehicles s1 = vehicles s"
      "vehicleTypes s1 = vehicleTypes s" "allocLog s1 = allocLog s"
      "\<forall>c. c \<noteq> company (type v) \<longrightarrow> stats s1 c = stats s c"
      "\<exists>st1. stats s1 (company (type v)) = Some st1
         \<and> totalFaults st1 = totalFaults (stats_at (stats s) (company (type v)))
         \<and> totalFlights st1 = totalFlights (stats_at (stats s) (company (type v)))
         \<and> totalCharges st1 = totalCharges (stats_at (stats s) (company (type v))) + 1"
proof -
  from assms have ne: "eventQueue s \<noteq> []" and i: "i < length (activeChargers s)"
    by (auto simp: finishCharging_def Let_def split: if_splits)
  then have ni: "\<not> length (activeChargers s) \<le> i" by simp
  show ?thesis
    by (rule that [OF ne i assms [unfolded finishCharging_def Let_def if_not_P [OF ne] if_not_P [OF ni]]])
      simp_all
qed

lemma horizon_processFlightEnd:
  assumes "horizon_ok s" and "processFlightEnd v st d u s = Inr s'"
  shows "horizon_ok s'"
  using assms(2)
proof (cases rule: processFlightEnd_elim)
  case late
  with assms show ?thesis by simp
next
  case (landed s1)
  from landed(3) assms(1) have "horizon_ok s1" by (simp add: horizon_ok_def)
  then show ?thesis using landed(2) by (rule horizon_tryCharging)
qed

lemma horizon_finishCharging:
  assumes "horizon_ok s" and "finishCharging v i s = Inr s'"
  shows "horizon_ok s'"
  using assms(2)
proof (cases rule: finishCharging_elim)
  case (1 s1)
  from 1(4) assms(1) have "horizon_ok s1" by (simp add: horizon_ok_def)
  then have "horizon_ok (scheduleFlight v (top_time (eventQueue s)) s1)"
    by (rule horizon_scheduleFlight)
  then show ?thesis using 1(3) by (rule horizon_tryCharging)
qed

lemma horizon_run_iteration:
  "horizon_ok s \<Longrightarrow> run_iteration k u s = Inr s' \<Longrightarrow> horizon_ok s'"
  unfolding run_iteration_def Let_def
  by (auto split: Action.splits dest: horizon_processFlightEnd [OF horizon_pop] horizon_finishCharging [OF horizon_pop])

lemma charging_scheduleFlight:
  assumes "charging_ok s" and "ident v \<notin> ident ` set (occupants s)"
  shows "charging_ok (scheduleFlight v t s)"
proof (cases "t + getFlightDuration v > SIM_DURATION")
  case True
  then show ?thesis using assms by (simp add: scheduleFlight_def)
next
  case False
  then have q: "scheduleFlight v t s = s\<lparr>eventQueue := eventQueue s @
      [\<lparr>time = t + getFlightDuration v, action = FlightEnd v t (getFlightDuration v)\<rparr>]\<rparr>"
    by (simp add: scheduleFlight_def Let_def)
  show ?thesis
    unfolding q using assms
    by (auto simp: charging_ok_def occupants_def ev_vehicle_def)
qed

lemma tryCharging_body_cases:
  assumes "tryCharging_body now i s = Inr s'"
  obtains (skip) "i < length (activeChargers s)" "s' = s"
      "activeChargers s ! i \<noteq> None \<or> chargingQueue s = []"
  | (dropped) v rest where "i < length (activeChargers s)" "activeChargers s ! i = None"
      "chargingQueue s = v # rest" "now + timeToCharge (type v) > SIM_DURATION"
      "s' = s\<lparr>chargingQueue := rest, allocLog := allocLog s @ [Dropped v]\<rparr>"
  | (assigned) v rest where "i < length (activeChargers s)" "activeChargers s ! i = None"
      "chargingQueue s = v # rest" "now + timeToCharge (type v) \<le> SIM_DURATION"
      "s' = s\<lparr>chargingQueue := rest, activeChargers := (activeChargers s)[i := Some v],
               eventQueue := eventQueue s @ [\<lparr>time = now + timeToCharge (type v),
                                               action = ChargeEnd v i\<rparr>],
               allocLog := allocLog s @ [Assigned v i]\<rparr>"
proof -
  from assms have i: "i < length (activeChargers s)"
    by (auto simp: tryCharging_body_def split: if_splits)
  show ?thesis
  proof (cases "activeChargers s ! i = None \<and> chargingQueue s \<noteq> []")
    case False
    with assms i have "s' = s" by (auto simp: tryCharging_body_def)
    with i False show ?thesis by (intro skip) auto
  next
    case True
    then obtain v rest where vr: "chargingQueue s = v # rest"
      by (cases "chargingQueue s") auto
    show ?thesis
    proof (cases "now + timeToCharge (type v) > SIM_DURATION")
      case late: True
      with assms i True vr show ?thesis
        by (intro dropped [of v rest]) (auto simp: tryCharging_body_def Let_def)
    next
      case False
      with assms i True vr show ?thesis
        by (intro assigned [of v rest]) (auto simp: tryCharging_body_def Let_def)
    qed
  qed
qed

lemma charging_tryCharging_body:
  assumes "charging_ok s" and "tryCharging_body now i s = Inr s'"
  shows "charging_ok s'"
  using assms(2)
proof (cases rule: tryCharging_body_cases)
  case skip
  then show ?thesis using assms(1) by simp
next
  case (dropped v rest)
  then show ?thesis using assms(1)
    by (auto simp: charging_ok_def occupants_def)
next
  case (assigned v rest)
  have len: "length (activeChargers s) = NUM_CHARGERS"
    using assms(1) by (simp add: charging_ok_def)
  have d: "distinct (map ident (occupants s'))"
    using assms(1) assigned by (auto simp: charging_ok_def occupants_def ev_vehicle_def)
  have c: "\<forall>e\<in>set (eventQueue s'). \<forall>w j. action e = ChargeEnd w j
             \<longrightarrow> j < NUM_CHARGERS \<and> activeChargers s' ! j = Some w"
  proof (intro ballI allI impI)
    fix e w j assume e: "e \<in> set (eventQueue s')" and a: "action e = ChargeEnd w j"
    show "j < NUM_CHARGERS \<and> activeChargers s' ! j = Some w"
    proof (cases "e \<in> set (eventQueue s)")
      case True
      with assms(1) a have j: "j < NUM_CHARGERS" "activeChargers s ! j = Some w"
        by (auto simp: charging_ok_def)
      with assigned(2) have "j \<noteq> i" by auto
      with j assigned(5) show ?thesis by simp
    next
      case False
      with e assigned(5) have "e = \<lparr>time = now + timeToCharge (type v), action = ChargeEnd v i\<rparr>"
        by simp
      with a have "w = v" "j = i" by simp_all
      with assigned(1,5) len show ?thesis by simp
    qed
  qed
  have e: "\<forall>j<NUM_CHARGERS. \<forall>w. activeChargers s' ! j = Some w
             \<longrightarrow> (\<exists>e\<in>set (eventQueue s'). action e = ChargeEnd w j)"
  proof (intro allI impI)
    fix j w assume j: "j < NUM_CHARGERS" and a: "activeChargers s' ! j = Some w"
    show "\<exists>e\<in>set (eventQueue s'). action e = ChargeEnd w j"
    proof (cases "j = i")
      case True
      with a assigned(1,5) have "w = v" by simp
      with True assigned(5) show ?thesis by simp
    next
      case False
      with a assigned(5) have "activeChargers s ! j = Some w" by simp
      with assms(1) j obtain e where "e \<in> set (eventQueue s)" "action e = ChargeEnd w j"
        unfolding charging_ok_def by blast
      with assigned(5) show ?thesis by auto
    qed
  qed
  from assigned(5) len have "length (activeChargers s') = NUM_CHARGERS" by simp
  with d c e show ?thesis unfolding charging_ok_def by blast
qed

lemma charging_tryCharging:
  "charging_ok s \<Longrightarrow> tryCharging now s = Inr s' \<Longrightarrow> charging_ok s'"
  unfolding tryCharging_def
  by (erule for_loop_invariant [where P = charging_ok, rotated]) (auto intro: charging_tryCharging_body)

lemma tryCharging_total:
  assumes "charging_ok s"
  shows "\<exists>s'. tryCharging now s = Inr s'"
proof -
  have "\<exists>s'. for_loop [0..<NUM_CHARGERS] (tryCharging_body now) s = Inr s' \<and> charging_ok s'"
  proof (rule for_loop_total [where P = charging_ok, OF assms])
    fix i t assume i: "i \<in> set [0..<NUM_CHARGERS]" and t: "charging_ok t"
    then have "i < length (activeChargers t)" by (simp add: charging_ok_def)
    then have "\<exists>t'. tryCharging_body now i t = Inr t'"
      by (simp add: tryCharging_body_def Let_def)
    with t show "\<exists>t'. tryCharging_body now i t = Inr t' \<and> charging_ok t'"
      by (auto intro: charging_tryCharging_body)
  qed
  then show ?thesis by (auto simp: tryCharging_def)
qed

lemma pop_at_split:
  assumes "k < length q"
  obtains xs ys where "q = xs @ q ! k # ys" "pop_at k q = xs @ ys"
  using id_take_nth_drop [OF assms] by (auto simp: pop_at_def)

lemma charging_pop_flight:
  assumes ok: "charging_ok s" and k: "k < length (eventQueue s)"
    and a: "action (eventQueue s ! k) = FlightEnd v st d"
    and q1: "eventQueue s1 = pop_at k (eventQueue s)"
    and l1: "chargingQueue s1 = chargingQueue s"
    and c1: "activeChargers s1 = activeChargers s"
  shows "charging_ok s1 \<and> ident v \<notin> ident ` set (occupants s1)"
proof -
  define e where "e = eventQueue s ! k"
  from k obtain xs ys where q: "eventQueue s = xs @ e # ys" and p: "pop_at k (eventQueue s) = xs @ ys"
    unfolding e_def by (rule pop_at_split)
  have v: "ev_vehicle e = v" using a by (simp add: ev_vehicle_def e_def)
  have q1': "eventQueue s1 = xs @ ys" using q1 p by simp
  from ok have "distinct (map ident (map ev_vehicle (xs @ e # ys) @ chargingQueue s))"
    by (simp add: charging_ok_def occupants_def q)
  then have d: "distinct (map ident (occupants s1))"
    and f: "ident v \<notin> ident ` set (occupants s1)"
    using v by (auto simp: occupants_def q1' l1)
  have c: "\<forall>e\<in>set (eventQueue s1). \<forall>w j. action e = ChargeEnd w j
             \<longrightarrow> j < NUM_CHARGERS \<and> activeChargers s1 ! j = Some w"
    using ok by (auto simp: charging_ok_def q q1' c1)
  have "\<exists>e'\<in>set (eventQueue s1). action e' = ChargeEnd w j"
    if "j < NUM_CHARGERS" "activeChargers s1 ! j = Some w" for j w
  proof -
    from that ok obtain e' where e': "e' \<in> set (eventQueue s)" "action e' = ChargeEnd w j"
      unfolding charging_ok_def c1 by blast
    with a have "e' \<noteq> e" by (auto simp: e_def)
    with e' show ?thesis by (auto simp: q q1')
  qed
  moreover have "length (activeChargers s1) = NUM_CHARGERS"
    using ok by (simp add: charging_ok_def c1)
  ultimately show ?thesis using d f c unfolding charging_ok_def by blast
qed

lemma charging_pop_charge:
  assumes ok: "charging_ok s" and k: "k < length (eventQueue s)"
    and a: "action (eventQueue s ! k) = ChargeEnd v i"
    and q1: "eventQueue s1 = pop_at k (eventQueue s)"
    and l1: "chargingQueue s1 = chargingQueue s"
    and c1: "activeChargers s1 = (activeChargers s)[i := None]"
  shows "charging_ok s1 \<and> ident v \<notin> ident ` set (occupants s1)"
proof -
  define e where "e = eventQueue s ! k"
  from k obtain xs ys where q: "eventQueue s = xs @ e # ys" and p: "pop_at k (eventQueue s) = xs @ ys"
    unfolding e_def by (rule pop_at_split)
  have v: "ev_vehicle e = v" using a by (simp add: ev_vehicle_def e_def)
  have q1': "eventQueue s1 = xs @ ys" using q1 p by simp
  have len: "length (activeChargers s) = NUM_CHARGERS"
    using ok by (simp add: charging_ok_def)
  have "e \<in> set (eventQueue s)" by (simp add: q)
  with ok a have i: "i < NUM_CHARGERS" and si: "activeChargers s ! i = Some v"
    unfolding charging_ok_def e_def by blast+
  from ok have "distinct (map ident (map ev_vehicle (xs @ e # ys) @ chargingQueue s))"
    by (simp add: charging_ok_def occupants_def q)
  then have d: "distinct (map ident (occupants s1))"
    and f: "ident v \<notin> ident ` set (occupants s1)"
    using v by (auto simp: occupants_def q1' l1)
  have c: "j < NUM_CHARGERS \<and> activeChargers s1 ! j = Some w"
    if "e' \<in> set (eventQueue s1)" "action e' = ChargeEnd w j" for e' w j
  proof -
    from that(1) have in_q: "e' \<in> set (eventQueue s)" by (auto simp: q q1')
    with ok that(2) have j: "j < NUM_CHARGERS" "activeChargers s ! j = Some w"
      unfolding charging_ok_def by blast+
    have "j \<noteq> i"
    proof
      assume "j = i"
      with j si have "w = v" by simp
      with that(2) have "ev_vehicle e' = v" by (simp add: ev_vehicle_def)
      with that(1) have "ident v \<in> ident ` set (occupants s1)"
        by (force simp: occupants_def)
      with f show False by simp
    qed
    with j show ?thesis by (simp add: c1)
  qed
  have "\<exists>e'\<in>set (eventQueue s1). action e' = ChargeEnd w j"
    if "j < NUM_CHARGERS" "activeChargers s1 ! j = Some w" for j w
  proof -
    from that i len have ji: "j \<noteq> i" by (auto simp: c1)
    with that have "activeChargers s ! j = Some w" by (simp add: c1)
    with that(1) ok obtain e' where e': "e' \<in> set (eventQueue s)" "action e' = ChargeEnd w j"
      unfolding charging_ok_def by blast
    with a ji have "e' \<noteq> e" by (auto simp: e_def)
    with e' show ?thesis by (auto simp: q q1')
  qed
  moreover have "length (activeChargers s1) = NUM_CHARGERS"
    using len by (simp add: c1)
  ultimately show ?thesis using d f c unfolding charging_ok_def by blast
qed

lemma charging_push_line:
  assumes "charging_ok s" and "ident v \<notin> ident ` set (occupants s)"
    and "eventQueue s1 = eventQueue s" and "chargingQueue s1 = chargingQueue s @ [v]"
    and "activeChargers s1 = activeChargers s"
  shows "charging_ok s1"
  using assms by (auto simp: charging_ok_def occupants_def)

lemma charging_run_iteration:
  assumes ok: "charging_ok s" and k: "k < length (eventQueue s)"
    and it: "run_iteration k u s = Inr s'"
  shows "charging_ok s'"
proof (cases "action (eventQueue s ! k)")
  case (FlightEnd v st d)
  let ?p = "s\<lparr>eventQueue := pop_at k (eventQueue s)\<rparr>"
  have p: "charging_ok ?p \<and> ident v \<notin> ident ` set (occupants ?p)"
    by (rule charging_pop_flight [OF ok k FlightEnd]) simp_all
  from it FlightEnd have "processFlightEnd v st d u ?p = Inr s'"
    by (simp add: run_iteration_def Let_def)
  then show ?thesis
  proof (cases rule: processFlightEnd_elim)
    case late
    with p show ?thesis by simp
  next
    case (landed s1)
    have "charging_ok s1"
      by (rule charging_push_line [OF p [THEN conjunct1] p [THEN conjunct2]])
        (simp_all add: landed)
    then show ?thesis using landed(2) by (rule charging_tryCharging)
  qed
next
  case (ChargeEnd v i)
  let ?p = "s\<lparr>eventQueue := pop_at k (eventQueue s)\<rparr>"
  from it ChargeEnd have "finishCharging v i ?p = Inr s'"
    by (simp add: run_iteration_def Let_def)
  then show ?thesis
  proof (cases rule: finishCharging_elim)
    case (1 s1)
    have p: "charging_ok s1 \<and> ident v \<notin> ident ` set (occupants s1)"
      by (rule charging_pop_charge [OF ok k ChargeEnd]) (simp_all add: 1)
    then have "charging_ok (scheduleFlight v (top_time (eventQueue ?p)) s1)"
      by (intro charging_scheduleFlight) simp_all
    then show ?thesis using 1(3) by (rule charging_tryCharging)
  qed
qed

lemma frame_tryCharging_body:
  "tryCharging_body now i s = Inr s' \<Longrightarrow> pass_frame s s'"
  by (erule tryCharging_body_cases) (auto simp: pass_frame_def occupants_def ev_vehicle_def)

lemma frame_tryCharging:
  assumes "tryCharging now s = Inr s'"
  shows "pass_frame s s'"
proof -
  have "pass_frame s s" by (simp add: pass_frame_def)
  with assms [unfolded tryCharging_def] show ?thesis
  proof (rule for_loop_invariant [where P = "pass_frame s"])
    fix i t t' assume "pass_frame s t" "tryCharging_body now i t = Inr t'"
    then show "pass_frame s t'"
      using frame_tryCharging_body [of now i t t'] by (auto simp: pass_frame_def)
  qed
qed

lemma fifo_tryCharging_body:
  "fifo_ok s \<Longrightarrow> tryCharging_body now i s = Inr s' \<Longrightarrow> fifo_ok s'"
  by (erule tryCharging_body_cases) (auto simp: fifo_ok_def joined_def dequeued_def)

lemma fifo_tryCharging:
  "fifo_ok s \<Longrightarrow> tryCharging now s = Inr s' \<Longrightarrow> fifo_ok s'"
  unfolding tryCharging_def
  by (erule for_loop_invariant [where P = fifo_ok, rotated]) (auto intro: fifo_tryCharging_body)

lemma occupants_scheduleFlight:
  "set (occupants (scheduleFlight v t s)) \<subseteq> insert v (set (occupants s))"
  by (auto simp: scheduleFlight_def Let_def occupants_def ev_vehicle_def)

lemma fields_scheduleFlight:
  "stats (scheduleFlight v t s) = stats s" "vehicles (scheduleFlight v t s) = vehicles s"
  "vehicleTypes (scheduleFlight v t s) = vehicleTypes s"
  "allocLog (scheduleFlight v t s) = allocLog s"
  "chargingQueue (scheduleFlight v t s) = chargingQueue s"
  "activeChargers (scheduleFlight v t s) = activeChargers s"
  by (simp_all add: scheduleFlight_def Let_def)

lemma run_iteration_cases:
  assumes k: "k < length (eventQueue s)" and it: "run_iteration k u s = Inr s'"
  obtains (late) v st d where "action (eventQueue s ! k) = FlightEnd v st d"
      "st + d > SIM_DURATION" "s' = s\<lparr>eventQueue := pop_at k (eventQueue s)\<rparr>"
  | (flight) v st d s1 where "action (eventQueue s ! k) = FlightEnd v st d"
      "st + d \<le> SIM_DURATION" "tryCharging (st + d) s1 = Inr s'"
      "eventQueue s1 = pop_at k (eventQueue s)" "chargingQueue s1 = chargingQueue s @ [v]"
      "activeChargers s1 = activeChargers s" "vehicles s1 = vehicles s"
      "vehicleTypes s1 = vehicleTypes s" "allocLog s1 = allocLog s @ [Joined v]"
      "\<forall>c. c \<noteq> company (type v) \<longrightarrow> stats s1 c = stats s c"
      "\<exists>st1. stats s1 (company (type v)) = Some st1
         \<and> totalFaults st1 = totalFaults (stats_at (stats s) (company (type v)))
              + (if u < faultProbPerHour (type v) * d then 1 else 0)
         \<and> totalFlights st1 = totalFlights (stats_at (stats s) (company (type v))) + 1
         \<and> totalCharges st1 = totalCharges (stats_at (stats s) (company (type v)))"
  | (charge) v i s1 s2 where "action (eventQueue s ! k) = ChargeEnd v i"
      "pop_at k (eventQueue s) \<noteq> []"
      "s2 = scheduleFlight v (top_time (pop_at k (eventQueue s))) s1"
      "tryCharging (top_time (pop_at k (eventQueue s))) s2 = Inr s'"
      "eventQueue s1 = pop_at k (eventQueue s)" "chargingQueue s1 = chargingQueue s"
      "activeChargers s1 = (activeChargers s)[i := None]" "vehicles s1 = vehicles s"
      "vehicleTypes s1 = vehicleTypes s" "allocLog s1 = allocLog s"
      "\<forall>c. c \<noteq> company (type v) \<longrightarrow> stats s1 c = stats s c"
      "\<exists>st1. stats s1 (company (type v)) = Some st1
         \<and> totalFaults st1 = totalFaults (stats_at (stats s) (company (type v)))
         \<and> totalFlights st1 = totalFlights (stats_at (stats s) (company (type v)))
         \<and> totalCharges st1 = totalCharges (stats_at (stats s) (company (type v))) + 1"
proof (cases "action (eventQueue s ! k)")
  case (FlightEnd v st d)
  let ?p = "s\<lparr>eventQueue := pop_at k (eventQueue s)\<rparr>"
  from it FlightEnd have "processFlightEnd v st d u ?p = Inr s'"
    by (simp add: run_iteration_def Let_def)
  then show ?thesis
  proof (cases rule: processFlightEnd_elim)
    case 1: late
    show ?thesis by (rule late [OF FlightEnd 1])
  next
    case (landed s1)
    show ?thesis
      by (rule flight [OF FlightEnd landed(1,2)]) (use landed in simp_all)
  qed
next
  case (ChargeEnd v i)
  let ?p = "s\<lparr>eventQueue := pop_at k (eventQueue s)\<rparr>"
  from it ChargeEnd have "finishCharging v i ?p = Inr s'"
    by (simp add: run_iteration_def Let_def)
  then show ?thesis
  proof (cases rule: finishCharging_elim)
    case (1 s1)
    show ?thesis
      by (rule charge [OF ChargeEnd _ refl, of s1]) (use 1 in simp_all)
  qed
qed

lemma nth_occupant:
  "k < length (eventQueue s) \<Longrightarrow> ev_vehicle (eventQueue s ! k) \<in> set (occupants s)"
  by (simp add: occupants_def)

lemma frame_run_iteration:
  assumes k: "k < length (eventQueue s)" and it: "run_iteration k u s = Inr s'"
  shows "vehicles s' = vehicles s \<and> vehicleTypes s' = vehicleTypes s
         \<and> set (occupants s') \<subseteq> set (occupants s)"
  using k it
proof (cases rule: run_iteration_cases)
  case (late v st d)
  then show ?thesis using set_pop_at [of k "eventQueue s"] by (auto simp: occupants_def)
next
  case (flight v st d s1)
  from nth_occupant [OF k] flight(1) have v: "v \<in> set (occupants s)"
    by (simp add: ev_vehicle_def)
  have "set (occupants s1) \<subseteq> set (occupants s)"
    using set_pop_at [of k "eventQueue s"] v flight(4,5) by (auto simp: occupants_def)
  with frame_tryCharging [OF flight(3)] flight(7,8) show ?thesis
    by (auto simp: pass_frame_def)
next
  case (charge v i s1 s2)
  from nth_occupant [OF k] charge(1) have v: "v \<in> set (occupants s)"
    by (simp add: ev_vehicle_def)
  have "set (occupants s1) \<subseteq> set (occupants s)"
    using set_pop_at [of k "eventQueue s"] charge(5,6) by (auto simp: occupants_def)
  with occupants_scheduleFlight [of v "top_time (pop_at k (eventQueue s))" s1] v charge(3)
  have "set (occupants s2) \<subseteq> set (occupants s)" by auto
  with frame_tryCharging [OF charge(4)] charge(3,8,9) show ?thesis
    by (auto simp: pass_frame_def fields_scheduleFlight)
qed

lemma fleet_run_iteration:
  "fleet_ok s \<Longrightarrow> k < length (eventQueue s) \<Longrightarrow> run_iteration k u s = Inr s' \<Longrightarrow> fleet_ok s'"
  using frame_run_iteration [of k s u s'] by (auto simp: fleet_ok_def)

lemma fifo_run_iteration:
  assumes ok: "fifo_ok s" and k: "k < length (eventQueue s)" and it: "run_iteration k u s = Inr s'"
  shows "fifo_ok s'"
  using k it
proof (cases rule: run_iteration_cases)
  case (late v st d)
  then show ?thesis using ok by (simp add: fifo_ok_def)
next
  case (flight v st d s1)
  from ok flight(5,9) have "fifo_ok s1" by (simp add: fifo_ok_def joined_def dequeued_def)
  then show ?thesis using flight(3) by (rule fifo_tryCharging)
next
  case (charge v i s1 s2)
  from ok charge(3,6,10) have "fifo_ok s2" by (simp add: fifo_ok_def fields_scheduleFlight)
  then show ?thesis using charge(4) by (rule fifo_tryCharging)
qed

lemma counts_run_iteration:
  assumes ok: "counts_ok s" and k: "k < length (eventQueue s)" and it: "run_iteration k u s = Inr s'"
  shows "counts_ok s'"
proof -
  have base: "0 \<le> totalFlights (stats_at (stats s) c) \<and> 0 \<le> totalCharges (stats_at (stats s) c)" for c
    using ok by (auto simp: counts_ok_def stats_at_def Stats_default_def split: option.splits)
  have step: "counts_ok t" if "\<forall>c. c \<noteq> c0 \<longrightarrow> stats t c = stats s c"
    and "\<exists>st1. stats t c0 = Some st1 \<and> 0 \<le> totalFlights st1 \<and> 0 \<le> totalCharges st1" for t c0
    unfolding counts_ok_def
  proof (intro allI impI)
    fix c st assume st: "stats t c = Some st"
    show "0 \<le> totalFlights st \<and> 0 \<le> totalCharges st"
    proof (cases "c = c0")
      case True
      with that(2) st show ?thesis by auto
    next
      case False
      with that(1) st ok show ?thesis by (auto simp: counts_ok_def)
    qed
  qed
  from k it show ?thesis
  proof (cases rule: run_iteration_cases)
    case (late v st d)
    then show ?thesis using ok by (simp add: counts_ok_def)
  next
    case (flight v st d s1)
    have "counts_ok s1"
      using flight(10,11) base [of "company (type v)"] by (intro step [of "company (type v)"]) auto
    with frame_tryCharging [OF flight(3)] show ?thesis by (simp add: counts_ok_def pass_frame_def)
  next
    case (charge v i s1 s2)
    have "counts_ok s1"
      using charge(11,12) base [of "company (type v)"] by (intro step [of "company (type v)"]) auto
    with frame_tryCharging [OF charge(4)] charge(3) show ?thesis
      by (simp add: counts_ok_def pass_frame_def fields_scheduleFlight)
  qed
qed

lemma built_fresh: "built catalog 0 (fresh catalog)"
  by (simp add: built_def fresh_def Simulation_members_def)

lemma built_body:
  assumes b: "built catalog i s" and c: "createVehicles_body draw i s = Inr s'"
  shows "built catalog (Suc i) s'"
proof -
  define v where "v = \<lparr>ident = i, type = vehicleTypes s ! draw i, nextAvailableTime = 0\<rparr>"
  define s1 where "s1 = s\<lparr>vehicles := vehicles s @ [v]\<rparr>"
  from c have d: "draw i < length (vehicleTypes s)" and s': "s' = scheduleFlight v 0 s1"
    by (auto simp: createVehicles_body_def Let_def v_def s1_def split: if_splits)
  from b d have tv: "type v \<in> set catalog" by (simp add: built_def v_def)
  have old: "ident w < i" if "w \<in> set (vehicles s)" for w
  proof -
    from that have "ident w \<in> set (map ident (vehicles s))" by simp
    with b show ?thesis by (simp add: built_def)
  qed
  have new: "ident v \<notin> ident ` ev_vehicle ` set (eventQueue s)"
  proof
    assume "ident v \<in> ident ` ev_vehicle ` set (eventQueue s)"
    then obtain e where "e \<in> set (eventQueue s)" "ident (ev_vehicle e) = ident v" by auto
    with b old [of "ev_vehicle e"] show False by (auto simp: built_def v_def)
  qed
  have b1: "built catalog (Suc i) s1"
    using b tv by (auto simp: built_def s1_def v_def)
  show ?thesis
  proof (cases "0 + getFlightDuration v > SIM_DURATION")
    case True
    then show ?thesis using b1 by (simp add: s' scheduleFlight_def)
  next
    case False
    then have q: "s' = s1\<lparr>eventQueue := eventQueue s1 @
        [\<lparr>time = 0 + getFlightDuration v, action = FlightEnd v 0 (getFlightDuration v)\<rparr>]\<rparr>"
      by (simp add: s' scheduleFlight_def Let_def)
    have "v \<in> set (vehicles s1)" by (simp add: s1_def)
    with b1 new False show ?thesis
      unfolding q by (auto simp: built_def ev_vehicle_def s1_def)
  qed
qed

lemma built_createVehicles:
  assumes "createVehicles draw (fresh catalog) = Inr s"
  shows "built catalog NUM_VEHICLES s"
  using assms [unfolded createVehicles_def] built_fresh
  by (rule for_loop_upt_invariant [where P = "built catalog"]) (auto intro: built_body)

lemma well_formed_construct:
  assumes "Simulation_init draw (fresh catalog) = Inr s"
  shows "well_formed catalog s" and "stats s = Map.empty" and "vehicleTypes s = catalog"
    and "length (vehicles s) = NUM_VEHICLES" and "allocLog s = []"
proof -
  from assms obtain s1 where c: "createVehicles draw (fresh catalog) = Inr s1"
    and s: "s = s1\<lparr>activeChargers := resize NUM_CHARGERS (activeChargers s1)\<rparr>"
    by (auto simp: Simulation_init_def split: sum.splits)
  from built_createVehicles [OF c] have b: "built catalog NUM_VEHICLES s1" .
  then have a: "activeChargers s = replicate NUM_CHARGERS None"
    by (simp add: s built_def resize_def)
  from b have "charging_ok s"
    unfolding charging_ok_def a by (auto simp: s built_def occupants_def)
  moreover from b have "horizon_ok s"
    unfolding horizon_ok_def by (auto simp: s built_def)
  moreover from b have "fifo_ok s"
    by (simp add: fifo_ok_def s built_def joined_def dequeued_def)
  moreover from b have "fleet_ok s"
    by (auto simp: fleet_ok_def s built_def occupants_def)
  moreover from b have "counts_ok s"
    by (simp add: counts_ok_def s built_def)
  moreover from b have "\<forall>v\<in>set (vehicles s). type v \<in> set catalog"
    by (simp add: s built_def)
  ultimately show "well_formed catalog s" by (simp add: well_formed_def)
  from b show "stats s = Map.empty" "vehicleTypes s = catalog" "allocLog s = []"
    by (simp_all add: s built_def)
  from b have "length (map ident (vehicles s1)) = NUM_VEHICLES" by (simp add: built_def)
  then show "length (vehicles s) = NUM_VEHICLES" by (simp add: s)
qed

lemma deliverable_index: "deliverable s k u \<Longrightarrow> k < length (eventQueue s)"
  by (simp add: deliverable_def is_top_def)

lemma well_formed_run_iteration:
  assumes "well_formed catalog s" and k: "k < length (eventQueue s)"
    and it: "run_iteration k u s = Inr s'"
  shows "well_formed catalog s'"
  using assms(1) charging_run_iteration [OF _ k it] horizon_run_iteration [OF _ it]
    fifo_run_iteration [OF _ k it] fleet_run_iteration [OF _ k it]
    counts_run_iteration [OF _ k it] frame_run_iteration [OF k it]
  by (simp add: well_formed_def)

lemma well_formed_run_step:
  "well_formed catalog s \<Longrightarrow> run_step s s' \<Longrightarrow> well_formed catalog s'"
  by (auto elim!: run_step.cases intro: well_formed_run_iteration dest: deliverable_index)

lemma reachable_with_well_formed:
  "reachable_with catalog s \<Longrightarrow> well_formed catalog s"
  by (induction rule: reachable_with.induct)
    (auto intro: well_formed_construct(1) well_formed_run_step)

lemma loadVehicleTypes_fresh:
  "loadVehicleTypes Simulation_members = fresh (vehicleTypes (loadVehicleTypes Simulation_members))"
  by (simp add: loadVehicleTypes_def fresh_def)

lemma reachable_is_reachable_with:
  "reachable s \<Longrightarrow> reachable_with (vehicleTypes (loadVehicleTypes Simulation_members)) s"
proof (induction rule: reachable.induct)
  case (constructed draw s)
  then show ?case
    unfolding Simulation_ctor_def
    by (subst (asm) loadVehicleTypes_fresh) (rule constructed_with)
next
  case (iterated s s')
  then show ?case by (auto intro: iterated_with)
qed

lemma reachable_well_formed:
  "reachable s \<Longrightarrow> well_formed (vehicleTypes (loadVehicleTypes Simulation_members)) s"
  by (rule reachable_with_well_formed [OF reachable_is_reachable_with])

lemma reachable_charging_ok: "reachable s \<Longrightarrow> charging_ok s"
  using reachable_well_formed [of s] by (simp add: well_formed_def)

lemma run_steps:
  "run cs s = Inr s' \<Longrightarrow> run_step\<^sup>*\<^sup>* s s'"
proof (induction cs arbitrary: s)
  case Nil
  then show ?case by simp
next
  case (Cons c cs)
  obtain k u where c: "c = (k, u)" by (cases c)
  show ?case
  proof (cases "deliverable s k u")
    case False
    with Cons.prems c show ?thesis by simp
  next
    case True
    with Cons.prems c obtain t where t: "run_iteration k u s = Inr t" "run cs t = Inr s'"
      by (auto split: sum.splits)
    from True t(1) have "run_step s t" by (rule run_step.iteration)
    with Cons.IH [OF t(2)] show ?thesis by (rule converse_rtranclp_into_rtranclp [rotated])
  qed
qed

lemma reachable_steps: "run_step\<^sup>*\<^sup>* s s' \<Longrightarrow> reachable s \<Longrightarrow> reachable s'"
  by (induction rule: rtranclp_induct) (auto intro: reachable.iterated)

lemma reachable_with_steps:
  "run_step\<^sup>*\<^sup>* s s' \<Longrightarrow> reachable_with catalog s \<Longrightarrow> reachable_with catalog s'"
  by (induction rule: rtranclp_induct) (auto intro: iterated_with)

lemma well_formed_steps:
  "run_step\<^sup>*\<^sup>* s s' \<Longrightarrow> well_formed catalog s \<Longrightarrow> well_formed catalog s'"
  by (induction rule: rtranclp_induct) (auto intro: well_formed_run_step)

lemma top_time_Min: "q \<noteq> [] \<Longrightarrow> top_time q = Min (time ` set q)"
proof (induction q rule: top_time.induct)
  case 1
  then show ?case by simp
next
  case (2 e)
  then show ?case by simp
next
  case (3 e f fs)
  then show ?case by simp
qed

lemma is_top_time: "is_top q k \<Longrightarrow> time (q ! k) = top_time q"
proof -
  assume a: "is_top q k"
  then have k: "k < length q" and le: "\<forall>e\<in>set q. time (q ! k) \<le> time e"
    by (simp_all add: is_top_def list_all_iff)
  then have "q \<noteq> []" by auto
  have "Min (time ` set q) = time (q ! k)"
  proof (rule Min_eqI)
    show "finite (time ` set q)" by simp
    show "\<And>y. y \<in> time ` set q \<Longrightarrow> time (q ! k) \<le> y" using le by auto
    show "time (q ! k) \<in> time ` set q" using k by simp
  qed
  with top_time_Min [OF \<open>q \<noteq> []\<close>] show ?thesis by simp
qed

lemma events_tryCharging_body:
  "tryCharging_body now i s = Inr s' \<Longrightarrow> set (eventQueue s) \<subseteq> set (eventQueue s')"
  by (erule tryCharging_body_cases) auto

lemma events_tryCharging:
  assumes "tryCharging now s = Inr s'"
  shows "set (eventQueue s) \<subseteq> set (eventQueue s')"
proof -
  have "set (eventQueue s) \<subseteq> set (eventQueue s)" by simp
  with assms [unfolded tryCharging_def] show ?thesis
    by (rule for_loop_invariant [where P = "\<lambda>t. set (eventQueue s) \<subseteq> set (eventQueue t)"])
      (use events_tryCharging_body in blast)
qed

lemma for_loop_append:
  "for_loop (xs @ ys) body s
     = (case for_loop xs body s of Inl e \<Rightarrow> Inl e | Inr t \<Rightarrow> for_loop ys body t)"
  by (induction xs arbitrary: s) (auto split: sum.splits)

section \<open>Derived values of a vehicle type\<close>

text \<open>
  C4. For a type with battery capacity C, cruise speed S and energy per mile E, all
  positive, the flight duration is C / (S * E) and the distance per flight is
  S * (C / (S * E)) = C / E; for S = 100, C = 100, E = 1.5 the duration is within 0.001
  of 0.667 and the distance within 0.1 of 66.7.
\<close>

theorem derived_values:
  assumes "0 < cruiseSpeed (type v)" and "0 < batteryCapacity (type v)"
    and "0 < energyPerMile (type v)"
  shows "getFlightDuration v
           = batteryCapacity (type v) / (cruiseSpeed (type v) * energyPerMile (type v))
       \<and> getDistancePerFlight v
           = cruiseSpeed (type v) * batteryCapacity (type v)
               / (cruiseSpeed (type v) * energyPerMile (type v))
       \<and> getDistancePerFlight v = batteryCapacity (type v) / energyPerMile (type v)
       \<and> (cruiseSpeed (type v) = 100 \<and> batteryCapacity (type v) = 100
            \<and> energyPerMile (type v) = 15/10
          \<longrightarrow> \<bar>getFlightDuration v - 667/1000\<bar> < 1/1000
            \<and> \<bar>getDistancePerFlight v - 667/10\<bar> < 1/10)"
proof (intro conjI impI)
  show "getFlightDuration v
          = batteryCapacity (type v) / (cruiseSpeed (type v) * energyPerMile (type v))"
    by (simp add: getFlightDuration_def)
  show "getDistancePerFlight v
          = cruiseSpeed (type v) * batteryCapacity (type v)
              / (cruiseSpeed (type v) * energyPerMile (type v))"
    by (simp add: getFlightDuration_def getDistancePerFlight_def)
  show "getDistancePerFlight v = batteryCapacity (type v) / energyPerMile (type v)"
    using assms by (simp add: getFlightDuration_def getDistancePerFlight_def)
next
  assume ex: "cruiseSpeed (type v) = 100 \<and> batteryCapacity (type v) = 100
                \<and> energyPerMile (type v) = 15/10"
  then have "getFlightDuration v = 100 / (100 * (15/10))"
    unfolding getFlightDuration_def by (elim conjE) (simp only:)
  then have d: "getFlightDuration v = 2/3"
    by simp
  from d show "\<bar>getFlightDuration v - 667/1000\<bar> < 1/1000"
    by simp
  from ex have "getDistancePerFlight v = 100 * getFlightDuration v"
    unfolding getDistancePerFlight_def by (elim conjE) (simp only:)
  with d have "getDistancePerFlight v = 200/3"
    by simp
  then show "\<bar>getDistancePerFlight v - 667/10\<bar> < 1/10"
    by simp
qed

theorem derived_values_witness:
  "getFlightDuration \<lparr>ident = 0, type = vehicleTypes (loadVehicleTypes Simulation_members) ! 1,
       nextAvailableTime = 0\<rparr> = 2/3
   \<and> getDistancePerFlight \<lparr>ident = 0, type = vehicleTypes (loadVehicleTypes Simulation_members) ! 1,
       nextAvailableTime = 0\<rparr> = 200/3"
  using derived_values [of "\<lparr>ident = 0, type = vehicleTypes (loadVehicleTypes Simulation_members) ! 1,
       nextAvailableTime = 0\<rparr>"]
  by (simp add: loadVehicleTypes_def)

section \<open>The time finishCharging takes for now\<close>

text \<open>
  What \<open>finishCharging\<close> takes for now: the time of the earliest event that is still
  pending when the charge completion has been popped.
\<close>

lemma finishCharging_next_flight:
  assumes k: "k < length (eventQueue s)" and it: "run_iteration k u s = Inr s'"
    and a: "action (eventQueue s ! k) = ChargeEnd v i"
    and fits: "top_time (pop_at k (eventQueue s)) + getFlightDuration v \<le> SIM_DURATION"
  shows "\<lparr>time = top_time (pop_at k (eventQueue s)) + getFlightDuration v,
          action = FlightEnd v (top_time (pop_at k (eventQueue s))) (getFlightDuration v)\<rparr>
         \<in> set (eventQueue s')"
  using k it
proof (cases rule: run_iteration_cases)
  case (late v st d)
  with a show ?thesis by simp
next
  case (flight v st d s1)
  with a show ?thesis by simp
next
  case (charge w j s1 s2)
  with a have w: "w = v" by simp
  from fits charge(3) have "\<lparr>time = top_time (pop_at k (eventQueue s)) + getFlightDuration v,
          action = FlightEnd v (top_time (pop_at k (eventQueue s))) (getFlightDuration v)\<rparr>
         \<in> set (eventQueue s2)"
    by (simp add: scheduleFlight_def Let_def w)
  with events_tryCharging [OF charge(4)] show ?thesis by blast
qed

lemma last_charge_completion:
  assumes "eventQueue s = [e]" and "action e = ChargeEnd v i"
  shows "run_iteration 0 u s = Inl EmptyQueueTop"
  using assms by (simp add: run_iteration_def pop_at_def finishCharging_def)

text \<open>
  C1. A charge completion that fires at time t should schedule the vehicle's next flight
  with start time t. The program reads the time from \<open>eventQueue.top()\<close> after \<open>run\<close>
  has popped the firing event, so it takes the time of the next pending event. Evaluated
  on the fleet of one Charlie and nineteen Alpha vehicles: the Charlie vehicle lands at
  0.625 and charges on charger 0 until 57/40 = 1.425; when that completion fires, the
  only pending events are the Alpha flights that end at 5/3, and the next flight is
  scheduled with start time 5/3 and end time 5/3 + 5/8 = 55/24, not with start 57/40.
\<close>

theorem finishCharging_start_time_evaluated:
  "(case Simulation_ctor fleet_one_charlie of Inl _ \<Rightarrow> False | Inr s0 \<Rightarrow>
      (case run [(0, 0)] s0 of Inl _ \<Rightarrow> False | Inr s1 \<Rightarrow>
         deliverable s1 19 0
         \<and> eventQueue s1 ! 19 = \<lparr>time = 57/40, action = ChargeEnd (vehicles s1 ! 0) 0\<rparr>
         \<and> (case run_iteration 19 0 s1 of Inl _ \<Rightarrow> False | Inr s2 \<Rightarrow>
              last (eventQueue s2)
                = \<lparr>time = 55/24, action = FlightEnd (vehicles s1 ! 0) (5/3) (5/8)\<rparr>)))"
  by code_simp

text \<open>
  C2. The read of \<open>eventQueue.top()\<close> in \<open>finishCharging\<close> should never meet an empty
  queue. Evaluated on the fleet of twenty Alpha vehicles: after 24 iterations of the loop
  of \<open>run\<close> one event is pending, the charge completion of vehicle 4 at 43/15; the 25th
  iteration pops it, and \<open>finishCharging\<close> reads the top of the empty queue.
\<close>

theorem finishCharging_reads_empty_queue:
  "(case Simulation_ctor fleet_alpha of Inl _ \<Rightarrow> False | Inr s0 \<Rightarrow>
      (case run (replicate 24 (0, 0)) s0 of Inl _ \<Rightarrow> False | Inr s \<Rightarrow>
         deliverable s 0 0 \<and> length (eventQueue s) = 1
         \<and> eventQueue s ! 0 = \<lparr>time = 43/15, action = ChargeEnd (vehicles s ! 4) 1\<rparr>
         \<and> (case run_iteration 0 0 s of Inl e \<Rightarrow> e = EmptyQueueTop | Inr _ \<Rightarrow> False)))"
  by code_simp

section \<open>The horizon\<close>

text \<open>
  C3. No event later than the horizon is enqueued or executed: \<open>scheduleFlight\<close> leaves
  the state as it is when the flight would end after \<open>SIM_DURATION\<close>; the loop body of
  \<open>tryCharging\<close> enqueues nothing when the charge of the head of the line would end after
  it, and what it enqueues otherwise is one charge completion at \<open>currentTime\<close> plus the
  charge time, within the horizon; in every state of a run every pending event is timed
  within the horizon, a pending flight completion with start + duration within the
  horizon; and every event that an iteration of \<open>run\<close> executes is one of these.
\<close>

theorem horizon_containment:
  assumes "reachable r"
  shows "(startTime + getFlightDuration v > SIM_DURATION \<longrightarrow> scheduleFlight v startTime s = s)
       \<and> (tryCharging_body currentTime i s = Inr s' \<and> chargingQueue s \<noteq> []
            \<and> currentTime + timeToCharge (type (hd (chargingQueue s))) > SIM_DURATION
          \<longrightarrow> eventQueue s' = eventQueue s)
       \<and> (tryCharging_body currentTime i s = Inr s' \<and> eventQueue s' \<noteq> eventQueue s
          \<longrightarrow> (\<exists>w. currentTime + timeToCharge (type w) \<le> SIM_DURATION
                 \<and> eventQueue s' = eventQueue s @
                       [\<lparr>time = currentTime + timeToCharge (type w), action = ChargeEnd w i\<rparr>]))
       \<and> (\<forall>e\<in>set (eventQueue r). time e \<le> SIM_DURATION
            \<and> (\<forall>w st d. action e = FlightEnd w st d \<longrightarrow> st + d \<le> SIM_DURATION))
       \<and> (\<forall>k u r'. deliverable r k u \<and> run_iteration k u r = Inr r'
            \<longrightarrow> time (eventQueue r ! k) \<le> SIM_DURATION
              \<and> (\<forall>w st d. action (eventQueue r ! k) = FlightEnd w st d
                    \<longrightarrow> st + d \<le> SIM_DURATION))"
proof (intro conjI)
  show "startTime + getFlightDuration v > SIM_DURATION \<longrightarrow> scheduleFlight v startTime s = s"
    by (simp add: scheduleFlight_def)
  show "tryCharging_body currentTime i s = Inr s' \<and> chargingQueue s \<noteq> []
          \<and> currentTime + timeToCharge (type (hd (chargingQueue s))) > SIM_DURATION
        \<longrightarrow> eventQueue s' = eventQueue s"
    by (auto elim!: tryCharging_body_cases)
  show "tryCharging_body currentTime i s = Inr s' \<and> eventQueue s' \<noteq> eventQueue s
          \<longrightarrow> (\<exists>w. currentTime + timeToCharge (type w) \<le> SIM_DURATION
                 \<and> eventQueue s' = eventQueue s @
                       [\<lparr>time = currentTime + timeToCharge (type w), action = ChargeEnd w i\<rparr>])"
    by (auto elim!: tryCharging_body_cases)
  from assms have h: "horizon_ok r"
    using reachable_well_formed [of r] by (simp add: well_formed_def)
  then show all: "\<forall>e\<in>set (eventQueue r). time e \<le> SIM_DURATION
            \<and> (\<forall>w st d. action e = FlightEnd w st d \<longrightarrow> st + d \<le> SIM_DURATION)"
    unfolding horizon_ok_def by fastforce
  show "\<forall>k u r'. deliverable r k u \<and> run_iteration k u r = Inr r'
            \<longrightarrow> time (eventQueue r ! k) \<le> SIM_DURATION
              \<and> (\<forall>w st d. action (eventQueue r ! k) = FlightEnd w st d
                    \<longrightarrow> st + d \<le> SIM_DURATION)"
  proof (intro allI impI)
    fix k u r' assume "deliverable r k u \<and> run_iteration k u r = Inr r'"
    then have "eventQueue r ! k \<in> set (eventQueue r)"
      by (simp add: deliverable_def is_top_def)
    with all show "time (eventQueue r ! k) \<le> SIM_DURATION
              \<and> (\<forall>w st d. action (eventQueue r ! k) = FlightEnd w st d
                    \<longrightarrow> st + d \<le> SIM_DURATION)"
      by blast
  qed
qed

theorem horizon_containment_witness:
  "(case Simulation_ctor fleet_alpha of Inl _ \<Rightarrow> False | Inr r \<Rightarrow>
      reachable r
      \<and> scheduleFlight (vehicles r ! 0) 2 r = r
      \<and> time (eventQueue r ! 0) = 5/3 \<and> time (eventQueue r ! 0) \<le> SIM_DURATION
      \<and> action (eventQueue r ! 0) = FlightEnd (vehicles r ! 0) 0 (5/3)
      \<and> (0::real) + 5/3 \<le> SIM_DURATION)"
proof -
  have "(case Simulation_ctor fleet_alpha of Inl _ \<Rightarrow> False | Inr r \<Rightarrow>
          2 + getFlightDuration (vehicles r ! 0) > SIM_DURATION
          \<and> eventQueue r ! 0 \<in> set (eventQueue r)
          \<and> time (eventQueue r ! 0) = 5/3
          \<and> action (eventQueue r ! 0) = FlightEnd (vehicles r ! 0) 0 (5/3))"
    by code_simp
  then obtain r where r: "Simulation_ctor fleet_alpha = Inr r"
    and late: "2 + getFlightDuration (vehicles r ! 0) > SIM_DURATION"
    and e: "eventQueue r ! 0 \<in> set (eventQueue r)" "time (eventQueue r ! 0) = 5/3"
      "action (eventQueue r ! 0) = FlightEnd (vehicles r ! 0) 0 (5/3)"
    by (auto split: sum.splits)
  from r have reach: "reachable r" by (rule reachable.constructed)
  note h = horizon_containment [OF reach, of 2 "vehicles r ! 0" r]
  from h late have "scheduleFlight (vehicles r ! 0) 2 r = r" by blast
  moreover from h e have "time (eventQueue r ! 0) \<le> SIM_DURATION"
    and "(0::real) + 5/3 \<le> SIM_DURATION" by blast+
  ultimately show ?thesis using r reach e by simp
qed

section \<open>The charger pool\<close>

lemma pending_charges_bounded:
  assumes ok: "charging_ok s"
  shows "length (filter is_charge (eventQueue s)) \<le> NUM_CHARGERS"
proof -
  define slot_of where "slot_of e = (case action e of FlightEnd v a b \<Rightarrow> 0 | ChargeEnd v i \<Rightarrow> i)"
    for e :: Event
  let ?ces = "filter is_charge (eventQueue s)"
  from ok have dist: "distinct (map ident (map ev_vehicle (eventQueue s)))"
    by (simp add: charging_ok_def occupants_def)
  then have inj: "inj_on (\<lambda>e. ident (ev_vehicle e)) (set (eventQueue s))"
    and dq: "distinct (eventQueue s)"
    by (simp_all add: distinct_map comp_def)
  have slot: "slot_of e < NUM_CHARGERS \<and> activeChargers s ! slot_of e = Some (ev_vehicle e)"
    if "e \<in> set ?ces" for e
  proof -
    from that obtain v i where a: "action e = ChargeEnd v i" and e: "e \<in> set (eventQueue s)"
      by (cases "action e") (auto simp: is_charge_def)
    with ok have "i < NUM_CHARGERS \<and> activeChargers s ! i = Some v"
      unfolding charging_ok_def by blast
    with a show ?thesis by (simp add: slot_of_def ev_vehicle_def)
  qed
  have "inj_on slot_of (set ?ces)"
  proof (rule inj_onI)
    fix e f assume e: "e \<in> set ?ces" and f: "f \<in> set ?ces" and eq: "slot_of e = slot_of f"
    from slot [OF e] slot [OF f] eq have "ident (ev_vehicle e) = ident (ev_vehicle f)" by simp
    moreover from e f have "e \<in> set (eventQueue s)" "f \<in> set (eventQueue s)" by simp_all
    ultimately show "e = f" using inj by (simp add: inj_on_def)
  qed
  with dq have "distinct (map slot_of ?ces)" by (simp add: distinct_map)
  then have "length ?ces = card (slot_of ` set ?ces)"
    using distinct_card [of "map slot_of ?ces"] by simp
  also have "\<dots> \<le> card {..<NUM_CHARGERS}"
    using slot by (intro card_mono) auto
  finally show ?thesis by simp
qed

text \<open>
  C6. In every state of a run there are \<open>NUM_CHARGERS\<close> slots, each holding one vehicle
  or none; at most \<open>NUM_CHARGERS\<close> slots are occupied and at most \<open>NUM_CHARGERS\<close> charge
  completions are pending, so no more vehicles charge at once than there are chargers;
  no vehicle holds two slots; and no vehicle that holds a slot is in the waiting line.
\<close>

theorem charger_exclusivity:
  assumes "reachable s"
  shows "length (activeChargers s) = NUM_CHARGERS
       \<and> length (filter (\<lambda>x. x \<noteq> None) (activeChargers s)) \<le> NUM_CHARGERS
       \<and> length (filter is_charge (eventQueue s)) \<le> NUM_CHARGERS
       \<and> (\<forall>i<NUM_CHARGERS. \<forall>j<NUM_CHARGERS. \<forall>v w.
            activeChargers s ! i = Some v \<and> activeChargers s ! j = Some w \<and> ident v = ident w
            \<longrightarrow> i = j)
       \<and> (\<forall>i<NUM_CHARGERS. \<forall>v. activeChargers s ! i = Some v
            \<longrightarrow> ident v \<notin> ident ` set (chargingQueue s))"
proof -
  from assms have ok: "charging_ok s" by (rule reachable_charging_ok)
  then have len: "length (activeChargers s) = NUM_CHARGERS"
    and dist: "distinct (map ident (map ev_vehicle (eventQueue s)))"
    and line: "ident ` ev_vehicle ` set (eventQueue s) \<inter> ident ` set (chargingQueue s) = {}"
    by (auto simp: charging_ok_def occupants_def)
  have ev: "\<exists>e\<in>set (eventQueue s). action e = ChargeEnd v i"
    if "i < NUM_CHARGERS" "activeChargers s ! i = Some v" for i v
    using ok that unfolding charging_ok_def by blast
  have count: "length (filter (\<lambda>x. x \<noteq> None) (activeChargers s)) \<le> NUM_CHARGERS"
    using length_filter_le [of "\<lambda>x. x \<noteq> None" "activeChargers s"] len by simp
  have one: "i = j" if "i < NUM_CHARGERS" "j < NUM_CHARGERS" "activeChargers s ! i = Some v"
    "activeChargers s ! j = Some w" "ident v = ident w" for i j v w
  proof -
    from ev [OF that(1,3)] obtain e where e: "e \<in> set (eventQueue s)" "action e = ChargeEnd v i"
      by blast
    from ev [OF that(2,4)] obtain f where f: "f \<in> set (eventQueue s)" "action f = ChargeEnd w j"
      by blast
    from dist have "inj_on (\<lambda>x. ident (ev_vehicle x)) (set (eventQueue s))"
      by (simp add: distinct_map comp_def inj_on_def)
    moreover have "ident (ev_vehicle e) = ident (ev_vehicle f)"
      using e f that(5) by (simp add: ev_vehicle_def)
    ultimately have "e = f" using e(1) f(1) by (auto dest: inj_onD)
    with e f show ?thesis by simp
  qed
  have apart: "ident v \<notin> ident ` set (chargingQueue s)"
    if "i < NUM_CHARGERS" "activeChargers s ! i = Some v" for i v
  proof -
    from ev [OF that] obtain e where e: "e \<in> set (eventQueue s)" "action e = ChargeEnd v i"
      by blast
    then have "ident v \<in> ident ` ev_vehicle ` set (eventQueue s)"
      by (force simp: ev_vehicle_def)
    with line show ?thesis by blast
  qed
  from len count pending_charges_bounded [OF ok] one apart show ?thesis by blast
qed

theorem charger_exclusivity_witness:
  "(case Simulation_ctor fleet_alpha of Inl _ \<Rightarrow> False | Inr s0 \<Rightarrow>
      (case run (replicate 4 (0, 0)) s0 of Inl _ \<Rightarrow> False | Inr s \<Rightarrow>
         reachable s
         \<and> activeChargers s = [Some (vehicles s ! 0), Some (vehicles s ! 1), Some (vehicles s ! 2)]
         \<and> chargingQueue s = [vehicles s ! 3]
         \<and> length (filter (\<lambda>x. x \<noteq> None) (activeChargers s)) \<le> NUM_CHARGERS
         \<and> length (filter is_charge (eventQueue s)) \<le> NUM_CHARGERS
         \<and> ident (vehicles s ! 0) \<notin> ident ` set (chargingQueue s)))"
proof -
  have "(case Simulation_ctor fleet_alpha of Inl _ \<Rightarrow> False | Inr s0 \<Rightarrow>
      (case run (replicate 4 (0, 0)) s0 of Inl _ \<Rightarrow> False | Inr s \<Rightarrow>
         activeChargers s = [Some (vehicles s ! 0), Some (vehicles s ! 1), Some (vehicles s ! 2)]
         \<and> chargingQueue s = [vehicles s ! 3] \<and> 0 < NUM_CHARGERS))"
    by code_simp
  then obtain s0 s where s0: "Simulation_ctor fleet_alpha = Inr s0"
    and s: "run (replicate 4 (0, 0)) s0 = Inr s"
    and a: "activeChargers s = [Some (vehicles s ! 0), Some (vehicles s ! 1), Some (vehicles s ! 2)]"
    and l: "chargingQueue s = [vehicles s ! 3]" and n: "0 < NUM_CHARGERS"
    by (auto split: sum.splits)
  have reach: "reachable s"
    using run_steps [OF s] reachable.constructed [OF s0] by (rule reachable_steps)
  from a have "activeChargers s ! 0 = Some (vehicles s ! 0)" by simp
  with charger_exclusivity [OF reach] n
  have "length (filter (\<lambda>x. x \<noteq> None) (activeChargers s)) \<le> NUM_CHARGERS"
    and "length (filter is_charge (eventQueue s)) \<le> NUM_CHARGERS"
    and "ident (vehicles s ! 0) \<notin> ident ` set (chargingQueue s)" by blast+
  then show ?thesis using s0 s reach a l by simp
qed

section \<open>The waiting line\<close>

text \<open>
  C7 (as amended). The waiting line is dequeued in FIFO order: in every state of a run
  the vehicles dequeued so far (assigned a charger, or dropped because the charge would
  end after the horizon) are, in order, the first vehicles that joined, and the line
  holds the others in the order they joined; the m-th vehicle dequeued is the m-th that
  joined, whatever its type or operator.
\<close>

theorem waiting_line_fifo:
  assumes "reachable s"
  shows "joined (allocLog s) = dequeued (allocLog s) @ chargingQueue s
       \<and> (\<forall>m<length (dequeued (allocLog s)). dequeued (allocLog s) ! m = joined (allocLog s) ! m)"
proof -
  from assms have "fifo_ok s"
    using reachable_well_formed [of s] by (simp add: well_formed_def)
  then have eq: "joined (allocLog s) = dequeued (allocLog s) @ chargingQueue s"
    by (simp add: fifo_ok_def)
  then show ?thesis by (simp add: nth_append)
qed

theorem waiting_line_fifo_witness:
  "(case Simulation_ctor fleet_alpha of Inl _ \<Rightarrow> False | Inr s0 \<Rightarrow>
      (case run (replicate 5 (0, 0)) s0 of Inl _ \<Rightarrow> False | Inr s \<Rightarrow>
         reachable s
         \<and> dequeued (allocLog s) = [vehicles s ! 0, vehicles s ! 1, vehicles s ! 2]
         \<and> chargingQueue s = [vehicles s ! 3, vehicles s ! 4]
         \<and> joined (allocLog s)
             = [vehicles s ! 0, vehicles s ! 1, vehicles s ! 2, vehicles s ! 3, vehicles s ! 4]))"
proof -
  have "(case Simulation_ctor fleet_alpha of Inl _ \<Rightarrow> False | Inr s0 \<Rightarrow>
      (case run (replicate 5 (0, 0)) s0 of Inl _ \<Rightarrow> False | Inr s \<Rightarrow>
         dequeued (allocLog s) = [vehicles s ! 0, vehicles s ! 1, vehicles s ! 2]
         \<and> chargingQueue s = [vehicles s ! 3, vehicles s ! 4]))"
    by code_simp
  then obtain s0 s where s0: "Simulation_ctor fleet_alpha = Inr s0"
    and s: "run (replicate 5 (0, 0)) s0 = Inr s"
    and d: "dequeued (allocLog s) = [vehicles s ! 0, vehicles s ! 1, vehicles s ! 2]"
    and l: "chargingQueue s = [vehicles s ! 3, vehicles s ! 4]"
    by (auto split: sum.splits)
  have reach: "reachable s"
    using run_steps [OF s] reachable.constructed [OF s0] by (rule reachable_steps)
  from waiting_line_fifo [OF reach] d l
  have "joined (allocLog s)
          = [vehicles s ! 0, vehicles s ! 1, vehicles s ! 2, vehicles s ! 3, vehicles s ! 4]"
    by simp
  then show ?thesis using s0 s reach d l by simp
qed

text \<open>
  The claim as stated, that a vehicle which joined earlier is also assigned a charger
  earlier, fails on the fleet of seven Charlie and thirteen Alpha vehicles: vehicle 6
  (Charlie, charge time 0.8) joins the line at 0.625, vehicle 7 (Alpha, charge time 0.6)
  joins at 5/3; at 2.225 vehicle 6 is dequeued and dropped, since 2.225 + 0.8 exceeds the
  horizon, and vehicle 7 is then assigned charger 0. Vehicle 6 is never assigned.
\<close>

theorem fifo_assignment_counterexample:
  "(case Simulation_ctor fleet_seven_charlie of Inl _ \<Rightarrow> False | Inr s0 \<Rightarrow>
      (case run (map (\<lambda>k. (k, 0))
                  [0, 0, 0, 0, 0, 0, 0, 13, 13, 13, 0, 0, 0, 0, 0, 0, 0, 0, 0, 0, 0, 0, 0, 0, 1, 0, 0])
              s0 of Inl _ \<Rightarrow> False | Inr s \<Rightarrow>
         filter (\<lambda>ob. ident (obs_vehicle ob) = 6 \<or> ident (obs_vehicle ob) = 7) (allocLog s)
           = [Joined (vehicles s ! 6), Joined (vehicles s ! 7),
              Dropped (vehicles s ! 6), Assigned (vehicles s ! 7) 0]))"
  by code_simp

section \<open>A vehicle whose charge would overrun the horizon\<close>

lemma drop_pass:
  assumes ok: "charging_ok s" and i: "i < NUM_CHARGERS" and idle: "activeChargers s ! i = None"
    and line: "chargingQueue s = v # rest"
    and late: "now + timeToCharge (type v) > SIM_DURATION"
    and pass: "for_loop [i..<NUM_CHARGERS] (tryCharging_body now) s = Inr s'"
  shows "tryCharging_body now i s
           = Inr (s\<lparr>chargingQueue := rest, allocLog := allocLog s @ [Dropped v]\<rparr>)"
    and "charging_ok s' \<and> activeChargers s' ! i = None
         \<and> ident v \<notin> ident ` set (occupants s')
         \<and> (\<exists>extra. allocLog s' = allocLog s @ Dropped v # extra
              \<and> (\<forall>w. Assigned w i \<notin> set extra))"
proof -
  let ?t = "s\<lparr>chargingQueue := rest, allocLog := allocLog s @ [Dropped v]\<rparr>"
  let ?P = "\<lambda>t. charging_ok t \<and> activeChargers t ! i = None
         \<and> ident v \<notin> ident ` set (occupants t)
         \<and> (\<exists>extra. allocLog t = allocLog s @ Dropped v # extra
              \<and> (\<forall>w. Assigned w i \<notin> set extra))"
  from ok i have len: "i < length (activeChargers s)" by (simp add: charging_ok_def)
  with idle line late show body: "tryCharging_body now i s = Inr ?t"
    by (simp add: tryCharging_body_def Let_def)
  from i have "[i..<NUM_CHARGERS] = i # [Suc i..<NUM_CHARGERS]" by (simp add: upt_rec)
  with pass body have rest: "for_loop [Suc i..<NUM_CHARGERS] (tryCharging_body now) ?t = Inr s'"
    by simp
  from ok have "distinct (map ident (map ev_vehicle (eventQueue s) @ v # rest))"
    by (simp add: charging_ok_def occupants_def line)
  then have "ident v \<notin> ident ` set (occupants ?t)"
    by (auto simp: occupants_def)
  with charging_tryCharging_body [OF ok body] idle have P0: "?P ?t" by simp
  from rest P0 show "?P s'"
  proof (rule for_loop_invariant [where P = ?P])
    fix j t t' assume j: "j \<in> set [Suc i..<NUM_CHARGERS]" and P: "?P t"
      and b: "tryCharging_body now j t = Inr t'"
    from j have ji: "j \<noteq> i" by simp
    from P b have c: "charging_ok t'" by (auto intro: charging_tryCharging_body)
    from frame_tryCharging_body [OF b] P have f: "ident v \<notin> ident ` set (occupants t')"
      by (auto simp: pass_frame_def)
    from P obtain extra where e: "allocLog t = allocLog s @ Dropped v # extra"
      "\<forall>w. Assigned w i \<notin> set extra" by blast
    from b have "activeChargers t' ! i = None
       \<and> (\<exists>extra. allocLog t' = allocLog s @ Dropped v # extra \<and> (\<forall>w. Assigned w i \<notin> set extra))"
    proof (cases rule: tryCharging_body_cases)
      case skip
      with P show ?thesis by simp
    next
      case (dropped w rest')
      with P e show ?thesis by simp
    next
      case (assigned w rest')
      with P e ji show ?thesis by simp
    qed
    with c f show "?P t'" by simp
  qed
qed

lemma absent_steps:
  assumes "run_step\<^sup>*\<^sup>* s s'" and "charging_ok s" and "x \<notin> ident ` set (occupants s)"
  shows "charging_ok s' \<and> x \<notin> ident ` set (occupants s')"
  using assms
proof (induction rule: rtranclp_induct)
  case base
  then show ?case by simp
next
  case (step t t')
  from step.hyps(2) obtain k u where d: "deliverable t k u" and it: "run_iteration k u t = Inr t'"
    by (auto elim: run_step.cases)
  from d have k: "k < length (eventQueue t)" by (rule deliverable_index)
  from step.IH [OF step.prems] charging_run_iteration [OF _ k it] frame_run_iteration [OF k it]
  show ?case by auto
qed

text \<open>
  Every matching pass of a run starts in a state where the charger pool is consistent,
  and so does every part of it.
\<close>

lemma pass_entry:
  assumes ok: "charging_ok r" and k: "k < length (eventQueue r)"
    and it: "run_iteration k u r = Inr r'"
  shows "r' = r\<lparr>eventQueue := pop_at k (eventQueue r)\<rparr>
       \<or> (\<exists>s now. charging_ok s \<and> tryCharging now s = Inr r')"
  using k it
proof (cases rule: run_iteration_cases)
  case (late v st d)
  then show ?thesis by simp
next
  case (flight v st d s1)
  have p: "charging_ok (r\<lparr>eventQueue := pop_at k (eventQueue r)\<rparr>)
      \<and> ident v \<notin> ident ` set (occupants (r\<lparr>eventQueue := pop_at k (eventQueue r)\<rparr>))"
    by (rule charging_pop_flight [OF ok k flight(1)]) simp_all
  have "charging_ok s1"
    by (rule charging_push_line [OF p [THEN conjunct1] p [THEN conjunct2]])
      (simp_all add: flight)
  with flight(3) show ?thesis by blast
next
  case (charge v i s1 s2)
  have p: "charging_ok s1 \<and> ident v \<notin> ident ` set (occupants s1)"
    by (rule charging_pop_charge [OF ok k charge(1)]) (simp_all add: charge)
  then have "charging_ok s2"
    unfolding charge(3) by (intro charging_scheduleFlight) simp_all
  with charge(4) show ?thesis by blast
qed

lemma pass_reaches_charger:
  assumes ok: "charging_ok s0" and pass: "tryCharging now s0 = Inr s'"
    and i: "i \<le> NUM_CHARGERS"
  shows "\<exists>s. charging_ok s \<and> for_loop [0..<i] (tryCharging_body now) s0 = Inr s
             \<and> for_loop [i..<NUM_CHARGERS] (tryCharging_body now) s = Inr s'"
proof -
  from i have "[0..<NUM_CHARGERS] = [0..<i] @ [i..<NUM_CHARGERS]"
    using upt_add_eq_append [of 0 i "NUM_CHARGERS - i"] by simp
  with pass obtain s where s: "for_loop [0..<i] (tryCharging_body now) s0 = Inr s"
    "for_loop [i..<NUM_CHARGERS] (tryCharging_body now) s = Inr s'"
    by (auto simp: tryCharging_def for_loop_append split: sum.splits)
  from s(1) ok have "charging_ok s"
    by (rule for_loop_invariant [where P = charging_ok]) (auto intro: charging_tryCharging_body)
  with s show ?thesis by blast
qed

text \<open>
  C5. Let a matching pass at time \<open>currentTime\<close> reach charger \<open>i\<close> in a state where the
  charger pool is consistent, the charger is idle and the head \<open>v\<close> of the waiting line
  would finish charging after the horizon. Then the loop body only takes \<open>v\<close> off the line;
  at the end of the pass charger \<open>i\<close> is still idle and the pass has assigned no vehicle to
  it; and in every later state of the run \<open>v\<close> is in no pending event, not in the waiting
  line and on no charger: it never flies or charges again.
\<close>

theorem overrun_drops_vehicle:
  assumes "charging_ok s" and "i < NUM_CHARGERS" and "activeChargers s ! i = None"
    and "chargingQueue s = v # rest"
    and "currentTime + timeToCharge (type v) > SIM_DURATION"
    and "for_loop [i..<NUM_CHARGERS] (tryCharging_body currentTime) s = Inr s'"
    and "run_step\<^sup>*\<^sup>* s' s''"
  shows "tryCharging_body currentTime i s
           = Inr (s\<lparr>chargingQueue := rest, allocLog := allocLog s @ [Dropped v]\<rparr>)
       \<and> activeChargers s' ! i = None
       \<and> (\<exists>extra. allocLog s' = allocLog s @ Dropped v # extra
            \<and> (\<forall>w. Assigned w i \<notin> set extra))
       \<and> ident v \<notin> ident ` set (occupants s'')
       \<and> (\<forall>j<NUM_CHARGERS. \<forall>w. activeChargers s'' ! j = Some w \<longrightarrow> ident w \<noteq> ident v)"
proof -
  note d = drop_pass [OF assms(1-6)]
  from d(2) have later: "charging_ok s'' \<and> ident v \<notin> ident ` set (occupants s'')"
    by (intro absent_steps [OF assms(7)]) simp_all
  have "ident w \<noteq> ident v" if "j < NUM_CHARGERS" "activeChargers s'' ! j = Some w" for j w
  proof -
    from later that obtain e where "e \<in> set (eventQueue s'')" "action e = ChargeEnd w j"
      unfolding charging_ok_def by blast
    then have "w \<in> set (occupants s'')" by (force simp: occupants_def ev_vehicle_def)
    then have "ident w \<in> ident ` set (occupants s'')" by (rule imageI)
    with later show ?thesis by metis
  qed
  with d later show ?thesis by blast
qed

theorem overrun_drops_vehicle_witness:
  "(case Simulation_ctor fleet_alpha of Inl _ \<Rightarrow> False | Inr s0 \<Rightarrow>
      (case run (replicate 22 (0, 0)) s0 of Inl _ \<Rightarrow> False | Inr s \<Rightarrow>
         (case for_loop [2..<NUM_CHARGERS] (tryCharging_body (43/15))
                 (s\<lparr>eventQueue := pop_at 0 (eventQueue s),
                    activeChargers := (activeChargers s)[2 := None]\<rparr>)
          of Inl _ \<Rightarrow> False | Inr s' \<Rightarrow>
            action (eventQueue s ! 0) = ChargeEnd (vehicles s ! 2) 2
            \<and> top_time (pop_at 0 (eventQueue s)) = 43/15
            \<and> hd (chargingQueue s) = vehicles s ! 5
            \<and> 43/15 + timeToCharge (type (vehicles s ! 5)) > SIM_DURATION
            \<and> activeChargers s' ! 2 = None
            \<and> ident (vehicles s ! 5) \<notin> ident ` set (occupants s'))))"
proof -
  have "(case Simulation_ctor fleet_alpha of Inl _ \<Rightarrow> False | Inr s0 \<Rightarrow>
      (case run (replicate 22 (0, 0)) s0 of Inl _ \<Rightarrow> False | Inr s \<Rightarrow>
         (case for_loop [2..<NUM_CHARGERS] (tryCharging_body (43/15))
                 (s\<lparr>eventQueue := pop_at 0 (eventQueue s),
                    activeChargers := (activeChargers s)[2 := None]\<rparr>)
          of Inl _ \<Rightarrow> False | Inr s' \<Rightarrow>
            action (eventQueue s ! 0) = ChargeEnd (vehicles s ! 2) 2
            \<and> 0 < length (eventQueue s) \<and> 2 < NUM_CHARGERS
            \<and> top_time (pop_at 0 (eventQueue s)) = 43/15
            \<and> chargingQueue s = vehicles s ! 5 # tl (chargingQueue s)
            \<and> 43/15 + timeToCharge (type (vehicles s ! 5)) > SIM_DURATION
            \<and> activeChargers s ! 0 \<noteq> None)))"
    by code_simp
  then obtain s0 s s' where s0: "Simulation_ctor fleet_alpha = Inr s0"
    and s: "run (replicate 22 (0, 0)) s0 = Inr s"
    and s': "for_loop [2..<NUM_CHARGERS] (tryCharging_body (43/15))
                 (s\<lparr>eventQueue := pop_at 0 (eventQueue s),
                    activeChargers := (activeChargers s)[2 := None]\<rparr>) = Inr s'"
    and a: "action (eventQueue s ! 0) = ChargeEnd (vehicles s ! 2) 2"
    and k: "0 < length (eventQueue s)" and i: "2 < NUM_CHARGERS"
    and t: "top_time (pop_at 0 (eventQueue s)) = 43/15"
    and l: "chargingQueue s = vehicles s ! 5 # tl (chargingQueue s)"
    and late: "43/15 + timeToCharge (type (vehicles s ! 5)) > SIM_DURATION"
    by (auto split: sum.splits simp del: run.simps)
  let ?p = "s\<lparr>eventQueue := pop_at 0 (eventQueue s),
               activeChargers := (activeChargers s)[2 := None]\<rparr>"
  have reach: "reachable s"
    using run_steps [OF s] reachable.constructed [OF s0] by (rule reachable_steps)
  have ok: "charging_ok ?p"
    using charging_pop_charge [OF reachable_charging_ok [OF reach] k a, of ?p] by simp
  from ok i have idle: "activeChargers ?p ! 2 = None" by (simp add: charging_ok_def)
  from l have line: "chargingQueue ?p = vehicles s ! 5 # tl (chargingQueue s)" by simp
  from overrun_drops_vehicle [OF ok i idle line late s' rtranclp.rtrancl_refl]
  have "activeChargers s' ! 2 = None \<and> ident (vehicles s ! 5) \<notin> ident ` set (occupants s')"
    by blast
  moreover from l have "hd (chargingQueue s) = vehicles s ! 5" by (metis list.sel(1))
  ultimately show ?thesis using s0 s s' a t late by (simp del: run.simps)
qed

section \<open>The fault model\<close>

lemma stats_tryCharging: "tryCharging now s = Inr s' \<Longrightarrow> stats s' = stats s"
  using frame_tryCharging [of now s s'] by (simp add: pass_frame_def)

lemma faults_run_iteration:
  assumes k: "k < length (eventQueue s)" and it: "run_iteration k u s = Inr s'"
    and h: "horizon_ok s"
  shows "totalFaults (stats_at (stats s') c)
           = totalFaults (stats_at (stats s) c)
             + (case action (eventQueue s ! k) of
                  FlightEnd v st d \<Rightarrow>
                    if c = company (type v) \<and> u < faultProbPerHour (type v) * d then 1 else 0
                | ChargeEnd v i \<Rightarrow> 0)"
  using k it
proof (cases rule: run_iteration_cases)
  case (late v st d)
  from k have "eventQueue s ! k \<in> set (eventQueue s)" by simp
  with h late(1) have "st + d \<le> SIM_DURATION" unfolding horizon_ok_def by fastforce
  with late(2) show ?thesis by simp
next
  case (flight v st d s1)
  from stats_tryCharging [OF flight(3)] have "stats s' = stats s1" .
  with flight(1,10,11) show ?thesis
    by (cases "c = company (type v)") (auto simp: stats_at_def)
next
  case (charge v i s1 s2)
  from stats_tryCharging [OF charge(4)] charge(3) have "stats s' = stats s1"
    by (simp add: fields_scheduleFlight)
  with charge(1,11,12) show ?thesis
    by (cases "c = company (type v)") (auto simp: stats_at_def)
qed

lemma faults_zero_reachable:
  assumes "reachable_with catalog s"
    and z: "\<forall>t\<in>set catalog. company t = c \<longrightarrow> faultProbPerHour t = 0"
  shows "totalFaults (stats_at (stats s) c) = 0"
  using assms(1)
proof (induction rule: reachable_with.induct)
  case (constructed_with draw s)
  from well_formed_construct(2) [OF this] show ?case
    by (simp add: stats_at_def Stats_default_def)
next
  case (iterated_with s s')
  from iterated_with(2) obtain k u where d: "deliverable s k u" and it: "run_iteration k u s = Inr s'"
    by (auto elim: run_step.cases)
  from d have k: "k < length (eventQueue s)" and u: "0 \<le> u" by (simp_all add: deliverable_def is_top_def)
  from reachable_with_well_formed [OF iterated_with(1)]
  have h: "horizon_ok s" and f: "fleet_ok s" and t: "\<forall>v\<in>set (vehicles s). type v \<in> set catalog"
    by (simp_all add: well_formed_def)
  have "(case action (eventQueue s ! k) of
           FlightEnd v st d \<Rightarrow>
             if c = company (type v) \<and> u < faultProbPerHour (type v) * d then 1 else 0
         | ChargeEnd v i \<Rightarrow> 0) = (0::int)"
  proof (cases "action (eventQueue s ! k)")
    case (FlightEnd v st d)
    with nth_occupant [OF k] have "v \<in> set (occupants s)" by (simp add: ev_vehicle_def)
    with f t have "type v \<in> set catalog" by (auto simp: fleet_ok_def)
    with z have "c = company (type v) \<longrightarrow> faultProbPerHour (type v) = 0" by auto
    with u FlightEnd show ?thesis by auto
  next
    case (ChargeEnd v i)
    then show ?thesis by simp
  qed
  with faults_run_iteration [OF k it h, of c] iterated_with.IH show ?case by simp
qed

text \<open>
  C8. In every state of a run on a valid catalog, an iteration of \<open>run\<close> that completes a
  flight of duration \<open>d\<close> with the sample \<open>u\<close> of \<open>[0, 1)\<close> adds one to the fault counter
  of the vehicle's operator if \<open>u < faultProbPerHour * d\<close> and leaves it as it is otherwise;
  and if every catalog entry of an operator has fault rate 0, that operator's fault count
  is 0 in every state of every run.
\<close>

theorem fault_model:
  assumes "reachable_with catalog s" and "catalog_valid catalog"
  shows "(\<forall>k u s' v st d. deliverable s k u \<and> run_iteration k u s = Inr s'
            \<and> action (eventQueue s ! k) = FlightEnd v st d
          \<longrightarrow> totalFaults (stats_at (stats s') (company (type v)))
                = totalFaults (stats_at (stats s) (company (type v)))
                  + (if u < faultProbPerHour (type v) * d then 1 else 0))
       \<and> ((\<forall>t\<in>set catalog. company t = c \<longrightarrow> faultProbPerHour t = 0)
            \<longrightarrow> totalFaults (stats_at (stats s) c) = 0)"
proof (intro conjI allI impI)
  fix k u s' v st d
  assume a: "deliverable s k u \<and> run_iteration k u s = Inr s'
               \<and> action (eventQueue s ! k) = FlightEnd v st d"
  then have k: "k < length (eventQueue s)" by (simp add: deliverable_def is_top_def)
  from reachable_with_well_formed [OF assms(1)] have h: "horizon_ok s"
    by (simp add: well_formed_def)
  from a faults_run_iteration [OF k _ h, of u s' "company (type v)"]
  show "totalFaults (stats_at (stats s') (company (type v)))
          = totalFaults (stats_at (stats s) (company (type v)))
            + (if u < faultProbPerHour (type v) * d then 1 else 0)"
    by simp
next
  assume "\<forall>t\<in>set catalog. company t = c \<longrightarrow> faultProbPerHour t = 0"
  with assms(1) show "totalFaults (stats_at (stats s) c) = 0"
    by (rule faults_zero_reachable)
qed

theorem fault_model_witness:
  "(case Simulation_init (\<lambda>i. 0) (fresh [spec_type]) of Inl _ \<Rightarrow> False | Inr s0 \<Rightarrow>
      (case run [(0, 0)] s0 of Inl _ \<Rightarrow> False | Inr s \<Rightarrow>
        (case run_iteration 0 (1/2) s of Inl _ \<Rightarrow> False | Inr s' \<Rightarrow>
         reachable_with [spec_type] s \<and> reachable_with [spec_type] s'
         \<and> totalFlights (stats_at (stats s) BRAVO) = 1
         \<and> totalFaults (stats_at (stats s) BRAVO) = 0
         \<and> totalFlights (stats_at (stats s') BRAVO) = 2
         \<and> totalFaults (stats_at (stats s') BRAVO) = 0)))"
proof -
  have "(case Simulation_init (\<lambda>i. 0) (fresh [spec_type]) of Inl _ \<Rightarrow> False | Inr s0 \<Rightarrow>
      (case run [(0, 0)] s0 of Inl _ \<Rightarrow> False | Inr s \<Rightarrow>
        (case run_iteration 0 (1/2) s of Inl _ \<Rightarrow> False | Inr s' \<Rightarrow>
         deliverable s 0 (1/2)
         \<and> totalFlights (stats_at (stats s) BRAVO) = 1
         \<and> totalFlights (stats_at (stats s') BRAVO) = 2)))"
    by code_simp
  then obtain s0 s s' where s0: "Simulation_init (\<lambda>i. 0) (fresh [spec_type]) = Inr s0"
    and s: "run [(0, 0)] s0 = Inr s" and s': "run_iteration 0 (1/2) s = Inr s'"
    and d: "deliverable s 0 (1/2)"
    and n: "totalFlights (stats_at (stats s) BRAVO) = 1" "totalFlights (stats_at (stats s') BRAVO) = 2"
    by (auto split: sum.splits simp del: run.simps)
  have r: "reachable_with [spec_type] s"
    using run_steps [OF s] constructed_with [OF s0] by (rule reachable_with_steps)
  have r': "reachable_with [spec_type] s'"
    using r run_step.iteration [OF d s'] by (rule iterated_with)
  have v: "catalog_valid [spec_type]" by (simp add: catalog_valid_def spec_type_def)
  have z: "\<forall>t\<in>set [spec_type]. company t = BRAVO \<longrightarrow> faultProbPerHour t = 0"
    by (simp add: spec_type_def)
  from fault_model [OF r v, of BRAVO] z have "totalFaults (stats_at (stats s) BRAVO) = 0" by blast
  moreover from fault_model [OF r' v, of BRAVO] z have "totalFaults (stats_at (stats s') BRAVO) = 0"
    by blast
  ultimately show ?thesis using s0 s s' r r' n by (simp del: run.simps)
qed

section \<open>The averages of printStats\<close>

text \<open>
  C9. Each average that \<open>printStats\<close> reports is defined (no quotient by zero is taken):
  it is the total divided by the count when the count is positive and 0 when the count is
  zero; and in every state of a run the counts are positive or zero.
\<close>

theorem averages_defined:
  "avgFlightTime stat \<noteq> None \<and> avgDistancePerFlight stat \<noteq> None \<and> avgChargeTime stat \<noteq> None
   \<and> (0 < totalFlights stat
        \<longrightarrow> avgFlightTime stat = Some (totalFlightTime stat / of_int (totalFlights stat))
          \<and> avgDistancePerFlight stat = Some (totalDistance stat / of_int (totalFlights stat)))
   \<and> (totalFlights stat = 0
        \<longrightarrow> avgFlightTime stat = Some 0 \<and> avgDistancePerFlight stat = Some 0)
   \<and> (0 < totalCharges stat
        \<longrightarrow> avgChargeTime stat = Some (totalChargeTime stat / of_int (totalCharges stat)))
   \<and> (totalCharges stat = 0 \<longrightarrow> avgChargeTime stat = Some 0)
   \<and> (reachable s \<and> stats s c = Some stat
        \<longrightarrow> 0 \<le> totalFlights stat \<and> 0 \<le> totalCharges stat)"
proof -
  have "0 \<le> totalFlights stat \<and> 0 \<le> totalCharges stat" if "reachable s" "stats s c = Some stat"
    using reachable_well_formed [OF that(1)] that(2) by (auto simp: well_formed_def counts_ok_def)
  then show ?thesis
    by (simp add: avgFlightTime_def avgDistancePerFlight_def avgChargeTime_def quotient_def)
qed

theorem averages_defined_witness:
  "(case Simulation_ctor fleet_alpha of Inl _ \<Rightarrow> False | Inr s0 \<Rightarrow>
      (case run [(0, 0)] s0 of Inl _ \<Rightarrow> False | Inr s \<Rightarrow>
         reachable s \<and> stats s ALPHA = Some (stats_at (stats s) ALPHA)
         \<and> totalFlights (stats_at (stats s) ALPHA) = 1
         \<and> totalCharges (stats_at (stats s) ALPHA) = 0
         \<and> avgFlightTime (stats_at (stats s) ALPHA) = Some (5/3)
         \<and> avgDistancePerFlight (stats_at (stats s) ALPHA) = Some 200
         \<and> avgChargeTime (stats_at (stats s) ALPHA) = Some 0))"
proof -
  have "(case Simulation_ctor fleet_alpha of Inl _ \<Rightarrow> False | Inr s0 \<Rightarrow>
      (case run [(0, 0)] s0 of Inl _ \<Rightarrow> False | Inr s \<Rightarrow>
         stats s ALPHA = Some (stats_at (stats s) ALPHA)
         \<and> totalFlights (stats_at (stats s) ALPHA) = 1
         \<and> totalCharges (stats_at (stats s) ALPHA) = 0
         \<and> totalFlightTime (stats_at (stats s) ALPHA) = 5/3
         \<and> totalDistance (stats_at (stats s) ALPHA) = 200))"
    by code_simp
  then obtain s0 s where s0: "Simulation_ctor fleet_alpha = Inr s0"
    and s: "run [(0, 0)] s0 = Inr s"
    and e: "stats s ALPHA = Some (stats_at (stats s) ALPHA)"
      "totalFlights (stats_at (stats s) ALPHA) = 1" "totalCharges (stats_at (stats s) ALPHA) = 0"
      "totalFlightTime (stats_at (stats s) ALPHA) = 5/3" "totalDistance (stats_at (stats s) ALPHA) = 200"
    by (auto split: sum.splits simp del: run.simps)
  have reach: "reachable s"
    using run_steps [OF s] reachable.constructed [OF s0] by (rule reachable_steps)
  from averages_defined [of "stats_at (stats s) ALPHA" s ALPHA] e
  have "avgFlightTime (stats_at (stats s) ALPHA) = Some (5/3)"
    and "avgDistancePerFlight (stats_at (stats s) ALPHA) = Some 200"
    and "avgChargeTime (stats_at (stats s) ALPHA) = Some 0"
    by simp_all
  then show ?thesis using s0 s reach e by (simp del: run.simps)
qed

section \<open>The catalog\<close>

lemma Simulation_init_total:
  assumes "\<forall>i<NUM_VEHICLES. draw i < length catalog"
  shows "\<exists>r. Simulation_init draw (fresh catalog) = Inr r"
proof -
  have "\<exists>s'. for_loop [0..<NUM_VEHICLES] (createVehicles_body draw) (fresh catalog) = Inr s'
          \<and> vehicleTypes s' = catalog"
  proof (rule for_loop_total [where P = "\<lambda>s::Simulation. vehicleTypes s = catalog"])
    show "vehicleTypes (fresh catalog) = catalog" by (simp add: fresh_def)
  next
    fix i and t :: Simulation assume "i \<in> set [0..<NUM_VEHICLES]" "vehicleTypes t = catalog"
    with assms show "\<exists>t'. createVehicles_body draw i t = Inr t' \<and> vehicleTypes t' = catalog"
      by (auto simp: createVehicles_body_def Let_def fields_scheduleFlight not_le)
  qed
  then show ?thesis by (auto simp: Simulation_init_def createVehicles_def)
qed

text \<open>
  C10 (as amended). The catalog is not validated: \<open>loadVehicleTypes\<close> installs the same
  five entries whatever the state, and the constructor accepts any catalog that the draws
  index (its only failure is a subscript outside the catalog). Every entry that
  \<open>loadVehicleTypes\<close> installs has a positive cruise speed and a positive energy rate, so
  every vehicle the program constructs has a positive flight duration.
\<close>

theorem catalog_not_validated:
  "vehicleTypes (loadVehicleTypes s) = vehicleTypes (loadVehicleTypes Simulation_members)
   \<and> (\<forall>t\<in>set (vehicleTypes (loadVehicleTypes s)). 0 < cruiseSpeed t \<and> 0 < energyPerMile t)
   \<and> ((\<forall>i<NUM_VEHICLES. draw i < length catalog)
        \<longrightarrow> (\<exists>r. Simulation_init draw (fresh catalog) = Inr r))
   \<and> (Simulation_ctor draw = Inr r \<longrightarrow> (\<forall>v\<in>set (vehicles r). 0 < getFlightDuration v))"
proof (intro conjI impI)
  show "vehicleTypes (loadVehicleTypes s) = vehicleTypes (loadVehicleTypes Simulation_members)"
    by (simp add: loadVehicleTypes_def)
  show pos: "\<forall>t\<in>set (vehicleTypes (loadVehicleTypes s)). 0 < cruiseSpeed t \<and> 0 < energyPerMile t"
    by (simp add: loadVehicleTypes_def)
  show "\<exists>r. Simulation_init draw (fresh catalog) = Inr r"
    if "\<forall>i<NUM_VEHICLES. draw i < length catalog"
    using that by (rule Simulation_init_total)
  show "\<forall>v\<in>set (vehicles r). 0 < getFlightDuration v" if "Simulation_ctor draw = Inr r"
  proof
    fix v assume v: "v \<in> set (vehicles r)"
    from that have "reachable r" by (rule reachable.constructed)
    from reachable_well_formed [OF this] v
    have "type v \<in> set (vehicleTypes (loadVehicleTypes Simulation_members))"
      by (simp add: well_formed_def)
    then show "0 < getFlightDuration v"
      by (auto simp: loadVehicleTypes_def getFlightDuration_def)
  qed
qed

theorem catalog_not_validated_witness:
  "(case Simulation_ctor fleet_alpha of Inl _ \<Rightarrow> False | Inr r \<Rightarrow>
      vehicles r \<noteq> [] \<and> 0 < getFlightDuration (hd (vehicles r))
      \<and> 0 < cruiseSpeed (hd (vehicleTypes (loadVehicleTypes r)))
      \<and> 0 < energyPerMile (hd (vehicleTypes (loadVehicleTypes r))))"
proof -
  let ?c = "vehicleTypes (loadVehicleTypes Simulation_members)"
  have fr: "Simulation_ctor fleet_alpha = Simulation_init fleet_alpha (fresh ?c)"
    unfolding Simulation_ctor_def by (subst loadVehicleTypes_fresh) (rule refl)
  have "\<forall>i<NUM_VEHICLES. fleet_alpha i < length ?c"
    by (simp add: fleet_alpha_def loadVehicleTypes_def)
  with catalog_not_validated [of Simulation_members fleet_alpha ?c]
  obtain r where r: "Simulation_ctor fleet_alpha = Inr r"
    unfolding fr by blast
  from well_formed_construct(4) [OF r [unfolded fr]] have ne: "vehicles r \<noteq> []"
    by (auto simp: NUM_VEHICLES_def)
  then have "hd (vehicles r) \<in> set (vehicles r)" by simp
  with catalog_not_validated [of r fleet_alpha ?c r] r
  have "0 < getFlightDuration (hd (vehicles r))" by blast
  moreover have "hd (vehicleTypes (loadVehicleTypes r)) \<in> set (vehicleTypes (loadVehicleTypes r))"
    by (simp add: loadVehicleTypes_def)
  with catalog_not_validated [of r fleet_alpha ?c r]
  have "0 < cruiseSpeed (hd (vehicleTypes (loadVehicleTypes r)))
      \<and> 0 < energyPerMile (hd (vehicleTypes (loadVehicleTypes r)))" by blast
  ultimately show ?thesis using r ne by simp
qed

text \<open>
  The claim as stated, that a catalog entry with a cruise speed that is not positive is
  rejected before the run, fails: on a catalog whose only entry has cruise speed -120
  the constructor succeeds, and all twenty vehicles are enqueued with the flight duration
  -5/3 and a flight completion at time -5/3.
\<close>

theorem catalog_validation_counterexample:
  "(case Simulation_init (\<lambda>i. 0) (fresh [backwards_type]) of Inl _ \<Rightarrow> False | Inr r \<Rightarrow>
      cruiseSpeed (hd (vehicleTypes r)) = - 120
      \<and> length (eventQueue r) = 20 \<and> time (eventQueue r ! 0) = - (5/3)
      \<and> getFlightDuration (vehicles r ! 0) = - (5/3))"
  by code_simp

end
